theory Spec2Isabelle
  imports Main "HOL-Library.AList" "HOL-Library.Sublist"
begin

section \<open>Structured package input (prefetch-dependencies)\<close>

text \<open>
  The Go code works on the untyped value that \<^verbatim>\<open>json.Unmarshal\<close> produces:
  \<^verbatim>\<open>nil\<close>, \<^verbatim>\<open>bool\<close>, \<^verbatim>\<open>float64\<close>, \<^verbatim>\<open>string\<close>, \<^verbatim>\<open>[]any\<close> and
  \<^verbatim>\<open>map[string]any\<close>.  The type switches of the source become pattern matching on
  this datatype.  A Go map is an association list read through \<^const>\<open>map_of\<close> and
  written through \<^const>\<open>AList.update\<close>; the functions never look at a number, which is
  carried as an integer.
\<close>

datatype json =
    JNull
  | JBool bool
  | JNum int
  | JStr string
  | JArr "json list"
  | JObj "(string \<times> json) list"

lemma size_map_of_json:
  "map_of kvs k = Some v \<Longrightarrow> size v < Suc (size_list (size_prod (\<lambda>_. 0) size) kvs)"
proof (induction kvs)
  case Nil
  then show ?case by simp
next
  case (Cons p kvs)
  then show ?case by (cases p) (auto split: if_splits)
qed

text \<open>\<^verbatim>\<open>containsRPM\<close>: \<^verbatim>\<open>slices.ContainsFunc\<close> is \<^const>\<open>list_ex\<close>; a failed type
  assertion \<^verbatim>\<open>data["packages"].([]any)\<close> falls through to the \<^verbatim>\<open>"type"\<close> test.\<close>

function containsRPM :: "json \<Rightarrow> bool" where
  "containsRPM (JArr data) = list_ex containsRPM data"
| "containsRPM (JObj data) =
     ((case map_of data ''packages'' of
         Some (JArr packages) \<Rightarrow> list_ex containsRPM packages
       | _ \<Rightarrow> False)
      \<or> map_of data ''type'' = Some (JStr ''rpm''))"
| "containsRPM JNull = False"
| "containsRPM (JBool b) = False"
| "containsRPM (JNum n) = False"
| "containsRPM (JStr s) = False"
  by pat_completeness auto
termination
proof (relation "measure size", goal_cases)
  case 1
  show ?case by simp
next
  case (2 data x)
  then show ?case by (simp add: less_Suc_eq_le size_list_estimation')
next
  case (3 data v packages x)
  from 3(1,2) have "map_of data ''packages'' = Some (JArr packages)"
    by simp
  then have "size (JArr packages) < Suc (size_list (size_prod (\<lambda>_. 0) size) data)"
    by (rule size_map_of_json)
  moreover from 3(3) have "size x \<le> size_list size packages"
    by (simp add: size_list_estimation')
  ultimately show ?case by simp
qed

text \<open>\<^verbatim>\<open>injectSummaryInSBOMField\<close>.  The source overwrites the slice elements and the
  map entry in place and returns the same value; the model returns the rewritten value.
  \<^verbatim>\<open>packages[i] = ...\<close> writes into the slice held under \<^verbatim>\<open>"packages"\<close>.\<close>

function injectSummaryInSBOMField :: "json \<Rightarrow> json" where
  "injectSummaryInSBOMField (JArr data) = JArr (map injectSummaryInSBOMField data)"
| "injectSummaryInSBOMField (JObj data) =
     (case map_of data ''packages'' of
        Some (JArr packages) \<Rightarrow>
          JObj (AList.update ''packages'' (JArr (map injectSummaryInSBOMField packages)) data)
      | _ \<Rightarrow>
          if map_of data ''type'' = Some (JStr ''rpm'')
          then JObj (AList.update ''include_summary_in_sbom'' (JBool True) data)
          else JObj data)"
| "injectSummaryInSBOMField JNull = JNull"
| "injectSummaryInSBOMField (JBool b) = JBool b"
| "injectSummaryInSBOMField (JNum n) = JNum n"
| "injectSummaryInSBOMField (JStr s) = JStr s"
  by pat_completeness auto
termination
proof (relation "measure size", goal_cases)
  case 1
  show ?case by simp
next
  case (2 data x)
  then show ?case by (simp add: less_Suc_eq_le size_list_estimation')
next
  case (3 data v packages x)
  from 3(1,2) have "map_of data ''packages'' = Some (JArr packages)"
    by simp
  then have "size (JArr packages) < Suc (size_list (size_prod (\<lambda>_. 0) size) data)"
    by (rule size_map_of_json)
  moreover from 3(3) have "size x \<le> size_list size packages"
    by (simp add: size_list_estimation')
  ultimately show ?case by simp
qed

text \<open>\<^verbatim>\<open>maps.Copy(dst, src)\<close> stores every entry of \<^verbatim>\<open>src\<close> into \<^verbatim>\<open>dst\<close>.\<close>

definition mapsCopy :: "(string \<times> json) list \<Rightarrow> (string \<times> json) list \<Rightarrow> (string \<times> json) list" where
  "mapsCopy dst src = AList.merge dst src"

text \<open>\<^verbatim>\<open>injectSSLOptions\<close>.  The two nested type assertions on \<^verbatim>\<open>data["options"]\<close>
  and \<^verbatim>\<open>existingOptions["ssl"]\<close> are the two nested case distinctions; every failed
  assertion reaches the assignment \<^verbatim>\<open>data["options"] = map[string]any{"ssl": ssl}\<close>.\<close>

definition injectSSLLeaf :: "(string \<times> json) list \<Rightarrow> (string \<times> json) list \<Rightarrow> json" where
  "injectSSLLeaf data ssl =
     (case map_of data ''options'' of
        Some (JObj existingOptions) \<Rightarrow>
          (case map_of existingOptions ''ssl'' of
             Some (JObj existingSSL) \<Rightarrow>
               JObj (AList.update ''options''
                 (JObj (AList.update ''ssl'' (JObj (mapsCopy existingSSL ssl)) existingOptions)) data)
           | _ \<Rightarrow> JObj (AList.update ''options'' (JObj [(''ssl'', JObj ssl)]) data))
      | _ \<Rightarrow> JObj (AList.update ''options'' (JObj [(''ssl'', JObj ssl)]) data))"

function injectSSLOptions :: "json \<Rightarrow> (string \<times> json) list \<Rightarrow> json" where
  "injectSSLOptions (JArr data) ssl = JArr (map (\<lambda>item. injectSSLOptions item ssl) data)"
| "injectSSLOptions (JObj data) ssl =
     (case map_of data ''packages'' of
        Some (JArr packages) \<Rightarrow>
          JObj (AList.update ''packages''
            (JArr (map (\<lambda>item. injectSSLOptions item ssl) packages)) data)
      | _ \<Rightarrow>
          if map_of data ''type'' = Some (JStr ''rpm'')
          then injectSSLLeaf data ssl
          else JObj data)"
| "injectSSLOptions JNull ssl = JNull"
| "injectSSLOptions (JBool b) ssl = JBool b"
| "injectSSLOptions (JNum n) ssl = JNum n"
| "injectSSLOptions (JStr s) ssl = JStr s"
  by pat_completeness auto
termination
proof (relation "measure (\<lambda>(input, ssl). size input)", goal_cases)
  case 1
  show ?case by simp
next
  case (2 data ssl x)
  then show ?case by (simp add: less_Suc_eq_le size_list_estimation')
next
  case (3 data ssl v packages x)
  from 3(1,2) have "map_of data ''packages'' = Some (JArr packages)"
    by simp
  then have "size (JArr packages) < Suc (size_list (size_prod (\<lambda>_. 0) size) data)"
    by (rule size_map_of_json)
  moreover from 3(3) have "size x \<le> size_list size packages"
    by (simp add: size_list_estimation')
  ultimately show ?case by simp
qed

text \<open>
  The leaf matches of the injection traversal, as the specification words it and as
  \<^const>\<open>injectSummaryInSBOMField\<close> and \<^const>\<open>injectSSLOptions\<close> walk the input: into the
  elements of an array, into the elements of a \<^verbatim>\<open>"packages"\<close> array and nowhere else below
  such an object, and an object with \<^verbatim>\<open>"type"\<close> equal to \<^verbatim>\<open>"rpm"\<close> and no
  \<^verbatim>\<open>"packages"\<close> array is a match.
\<close>

function leafMatch :: "json \<Rightarrow> bool" where
  "leafMatch (JArr data) = list_ex leafMatch data"
| "leafMatch (JObj data) =
     (case map_of data ''packages'' of
        Some (JArr packages) \<Rightarrow> list_ex leafMatch packages
      | _ \<Rightarrow> map_of data ''type'' = Some (JStr ''rpm''))"
| "leafMatch JNull = False"
| "leafMatch (JBool b) = False"
| "leafMatch (JNum n) = False"
| "leafMatch (JStr s) = False"
  by pat_completeness auto
termination
proof (relation "measure size", goal_cases)
  case 1
  show ?case by simp
next
  case (2 data x)
  then show ?case by (simp add: less_Suc_eq_le size_list_estimation')
next
  case (3 data v packages x)
  from 3(1,2) have "map_of data ''packages'' = Some (JArr packages)"
    by simp
  then have "size (JArr packages) < Suc (size_list (size_prod (\<lambda>_. 0) size) data)"
    by (rule size_map_of_json)
  moreover from 3(3) have "size x \<le> size_list size packages"
    by (simp add: size_list_estimation')
  ultimately show ?case by simp
qed

text \<open>The nodes the traversal reaches: the input, the elements of arrays and the
  elements of \<^verbatim>\<open>"packages"\<close> arrays, recursively.\<close>

function visited :: "json \<Rightarrow> json list" where
  "visited (JArr data) = JArr data # concat (map visited data)"
| "visited (JObj data) =
     JObj data #
     (case map_of data ''packages'' of
        Some (JArr packages) \<Rightarrow> concat (map visited packages)
      | _ \<Rightarrow> [])"
| "visited JNull = [JNull]"
| "visited (JBool b) = [JBool b]"
| "visited (JNum n) = [JNum n]"
| "visited (JStr s) = [JStr s]"
  by pat_completeness auto
termination
proof (relation "measure size", goal_cases)
  case 1
  show ?case by simp
next
  case (2 data x)
  then show ?case by (simp add: less_Suc_eq_le size_list_estimation')
next
  case (3 data v packages x)
  from 3(1,2) have "map_of data ''packages'' = Some (JArr packages)"
    by simp
  then have "size (JArr packages) < Suc (size_list (size_prod (\<lambda>_. 0) size) data)"
    by (rule size_map_of_json)
  moreover from 3(3) have "size x \<le> size_list size packages"
    by (simp add: size_list_estimation')
  ultimately show ?case by simp
qed

definition isRPMObject :: "json \<Rightarrow> bool" where
  "isRPMObject node = (case node of JObj data \<Rightarrow> map_of data ''type'' = Some (JStr ''rpm'') | _ \<Rightarrow> False)"

definition hasPackagesArray :: "json \<Rightarrow> bool" where
  "hasPackagesArray node =
     (case node of
        JObj data \<Rightarrow> (case map_of data ''packages'' of Some (JArr packages) \<Rightarrow> True | _ \<Rightarrow> False)
      | _ \<Rightarrow> False)"

text \<open>The \<^verbatim>\<open>"options"\<close> object of a node together with its \<^verbatim>\<open>"ssl"\<close> object, when the
  node has both.\<close>

definition optionsWithSSL :: "(string \<times> json) list \<Rightarrow> ((string \<times> json) list \<times> (string \<times> json) list) option" where
  "optionsWithSSL data =
     (case map_of data ''options'' of
        Some (JObj opts) \<Rightarrow>
          (case map_of opts ''ssl'' of
             Some (JObj old) \<Rightarrow> Some (opts, old)
           | _ \<Rightarrow> None)
      | _ \<Rightarrow> None)"

section \<open>Strings\<close>

text \<open>Go strings are byte sequences; \<^verbatim>\<open>strings.Split(s, sep)\<close> for a one-byte separator,
  \<^verbatim>\<open>strings.Join\<close> and \<^verbatim>\<open>strings.LastIndex\<close> (\<^verbatim>\<open>-1\<close> is \<^const>\<open>None\<close>).\<close>

fun consHead :: "char \<Rightarrow> string list \<Rightarrow> string list" where
  "consHead x [] = [[x]]"
| "consHead x (w # ws) = (x # w) # ws"

primrec strSplit :: "char \<Rightarrow> string \<Rightarrow> string list" where
  "strSplit sep [] = [[]]"
| "strSplit sep (x # xs) =
     (if x = sep then [] # strSplit sep xs else consHead x (strSplit sep xs))"

fun strJoin :: "string \<Rightarrow> string list \<Rightarrow> string" where
  "strJoin sep [] = []"
| "strJoin sep [x] = x"
| "strJoin sep (x # y # ys) = x @ sep @ strJoin sep (y # ys)"

definition lastIndex :: "char \<Rightarrow> string \<Rightarrow> nat option" where
  "lastIndex c s =
     (if c \<in> set s then Some (length s - Suc (length (takeWhile (\<lambda>x. x \<noteq> c) (rev s)))) else None)"

lemma lastIndex_less: "lastIndex c s = Some i \<Longrightarrow> i < length s"
  by (auto simp: lastIndex_def split: if_splits) (metis length_pos_if_in_set diff_Suc_less)

section \<open>Registry credential selection\<close>

text \<open>
  \<^verbatim>\<open>GetImageName\<close> deletes the matches of two regular expressions that are anchored at
  the end of the text.  \<^verbatim>\<open>@sha256:[a-fA-F0-9]{64}$\<close> can only match the last 72 bytes.
  \<^verbatim>\<open>:[a-zA-Z0-9_][a-zA-Z0-9_.-]{0,127}$\<close> can only match from the last colon on, since
  a tag holds no colon.
\<close>

definition isHexDigit :: "char \<Rightarrow> bool" where
  "isHexDigit c = (c \<in> set ''0123456789abcdefABCDEF'')"

definition isTagFirstChar :: "char \<Rightarrow> bool" where
  "isTagFirstChar c =
     (c \<in> set ''abcdefghijklmnopqrstuvwxyzABCDEFGHIJKLMNOPQRSTUVWXYZ0123456789_'')"

definition isTagChar :: "char \<Rightarrow> bool" where
  "isTagChar c = (isTagFirstChar c \<or> c = CHR ''.'' \<or> c = CHR ''-'')"

definition stripDigestSuffix :: "string \<Rightarrow> string" where
  "stripDigestSuffix s =
     (let n = length s in
      if 72 \<le> n \<and> take 8 (drop (n - 72) s) = ''@sha256:'' \<and> list_all isHexDigit (drop (n - 64) s)
      then take (n - 72) s else s)"

definition stripTagSuffix :: "string \<Rightarrow> string" where
  "stripTagSuffix s =
     (case lastIndex CHR '':'' s of
        None \<Rightarrow> s
      | Some i \<Rightarrow>
          (case drop (Suc i) s of
             [] \<Rightarrow> s
           | c # cs \<Rightarrow>
               if isTagFirstChar c \<and> list_all isTagChar cs \<and> length cs \<le> 127
               then take i s else s))"

definition GetImageName :: "string \<Rightarrow> string" where
  "GetImageName imageURL = stripTagSuffix (stripDigestSuffix imageURL)"

definition registryDockerIO :: string where
  "registryDockerIO = ''docker.io''"

definition registryIndexDockerIO :: string where
  "registryIndexDockerIO = ''https://index.docker.io/v1/''"

record RegistryAuth =
  Registry :: string
  Token :: string

text \<open>\<^verbatim>\<open>RegistryAuths.Auths\<close>: scope key to the \<^verbatim>\<open>Auth\<close> string of its entry.\<close>

type_synonym RegistryAuths = "string \<rightharpoonup> string"

datatype 'e authError =
    InvalidImageReference string
  | AuthFileError 'e
  | AuthNotConfigured string

text \<open>The \<^verbatim>\<open>for\<close> loop of \<^verbatim>\<open>findAuth\<close>; \<^const>\<open>None\<close> is the \<^verbatim>\<open>break\<close>.\<close>

function findAuthLoop :: "RegistryAuths \<Rightarrow> string \<Rightarrow> string option" where
  "findAuthLoop auths authKey =
     (case auths authKey of
        Some auth \<Rightarrow> Some auth
      | None \<Rightarrow>
          (case lastIndex CHR ''/'' authKey of
             None \<Rightarrow> None
           | Some index \<Rightarrow> findAuthLoop auths (take index authKey)))"
  by pat_completeness auto
termination
  by (relation "measure (\<lambda>(auths, authKey). length authKey)") (auto dest: lastIndex_less)

declare findAuthLoop.simps [simp del]

definition findAuth :: "RegistryAuths \<Rightarrow> string \<Rightarrow> string" where
  "findAuth auths imageRepo =
     (case findAuthLoop auths imageRepo of
        Some auth \<Rightarrow> auth
      | None \<Rightarrow>
          if hd (strSplit CHR ''/'' imageRepo) = registryDockerIO
          then (case auths registryIndexDockerIO of Some auth \<Rightarrow> auth | None \<Rightarrow> [])
          else [])"

text \<open>\<^verbatim>\<open>readAuthFile\<close> reads and parses the file; the model takes it as a function from the
  path to the error or the loaded entries.\<close>

definition SelectRegistryAuth ::
  "(string \<Rightarrow> 'e + RegistryAuths) \<Rightarrow> string \<Rightarrow> string \<Rightarrow> 'e authError + RegistryAuth" where
  "SelectRegistryAuth readAuthFile imageRef authFilePath =
     (let imageRepo = GetImageName imageRef in
      if imageRepo = [] then Inl (InvalidImageReference imageRef)
      else case readAuthFile authFilePath of
             Inl err \<Rightarrow> Inl (AuthFileError err)
           | Inr registryAuths \<Rightarrow>
               (let token = findAuth registryAuths imageRepo in
                if token = [] then Inl (AuthNotConfigured imageRepo)
                else Inr \<lparr>Registry = hd (strSplit CHR ''/'' imageRepo), Token = token\<rparr>))"

text \<open>
  The lookup order in the specification's words: the repository path itself, then the
  path with its last \<^verbatim>\<open>/\<close>-segment stripped, and so on down to the first segment; that is,
  the non-empty prefixes of the segment list, longest first.
\<close>

definition scopeChain :: "string \<Rightarrow> string list" where
  "scopeChain imageRepo = map (strJoin ''/'') (rev (tl (prefixes (strSplit CHR ''/'' imageRepo))))"

text \<open>The entry the specification selects: the first scope of the chain that is a key of
  the file, else, for registry \<^verbatim>\<open>docker.io\<close> only, the index scope.\<close>

definition matchedAuth :: "RegistryAuths \<Rightarrow> string \<Rightarrow> string option" where
  "matchedAuth auths imageRepo =
     (case find (\<lambda>scope. auths scope \<noteq> None) (scopeChain imageRepo) of
        Some scope \<Rightarrow> auths scope
      | None \<Rightarrow>
          if hd (strSplit CHR ''/'' imageRepo) = registryDockerIO
          then auths registryIndexDockerIO else None)"

text \<open>
  An image reference in the specification's words: a repository path, then optionally
  \<^verbatim>\<open>:tag\<close>, then optionally \<^verbatim>\<open>@sha256:\<close> and 64 hexadecimal digits.  A tag is 1 to 128
  characters, letters, digits, \<^verbatim>\<open>_\<close>, \<^verbatim>\<open>.\<close> and \<^verbatim>\<open>-\<close>, and does not start with \<^verbatim>\<open>.\<close>
  or \<^verbatim>\<open>-\<close>.
\<close>

definition validTag :: "string \<Rightarrow> bool" where
  "validTag t = (t \<noteq> [] \<and> length t \<le> 128 \<and> isTagFirstChar (hd t) \<and> list_all isTagChar (tl t))"

definition validDigest :: "string \<Rightarrow> bool" where
  "validDigest d = (length d = 64 \<and> list_all isHexDigit d)"

definition hasTagSuffix :: "string \<Rightarrow> bool" where
  "hasTagSuffix s = (\<exists>r t. s = r @ '':'' @ t \<and> validTag t)"

definition hasDigestSuffix :: "string \<Rightarrow> bool" where
  "hasDigestSuffix s = (\<exists>r d. s = r @ ''@sha256:'' @ d \<and> validDigest d)"

definition imageReference :: "string \<Rightarrow> string option \<Rightarrow> string option \<Rightarrow> string" where
  "imageReference repo tag digest =
     repo @ (case tag of None \<Rightarrow> [] | Some t \<Rightarrow> '':'' @ t)
          @ (case digest of None \<Rightarrow> [] | Some d \<Rightarrow> ''@sha256:'' @ d)"

text \<open>The reference is the repository path \<open>repo\<close> with the tag and the digest given, and
  nothing that is left in place could be stripped as a digest or as a tag.\<close>

definition parsesAs :: "string \<Rightarrow> string \<Rightarrow> string option \<Rightarrow> string option \<Rightarrow> bool" where
  "parsesAs imageRef repo tag digest =
     (imageRef = imageReference repo tag digest \<and>
      (case digest of Some d \<Rightarrow> validDigest d | None \<Rightarrow> \<not> hasDigestSuffix imageRef) \<and>
      (case tag of Some t \<Rightarrow> validTag t | None \<Rightarrow> \<not> hasTagSuffix repo))"

section \<open>Paths (\<^verbatim>\<open>path/filepath\<close> on a Unix system)\<close>

text \<open>
  \<^verbatim>\<open>filepath.Clean\<close> walks the \<^verbatim>\<open>/\<close>-separated elements of the path: an empty element
  and \<^verbatim>\<open>.\<close> are dropped, \<^verbatim>\<open>..\<close> removes the last kept element when there is one that
  is not \<^verbatim>\<open>..\<close> itself, is dropped at the root and is kept otherwise.  The kept elements
  are held last first.
\<close>

definition cleanStep :: "bool \<Rightarrow> string \<Rightarrow> string list \<Rightarrow> string list" where
  "cleanStep rooted elem kept =
     (if elem = [] \<or> elem = ''.'' then kept
      else if elem = ''..'' then
        (case kept of
           [] \<Rightarrow> if rooted then [] else [''..'']
         | k # ks \<Rightarrow> if k = ''..'' then ''..'' # kept else ks)
      else elem # kept)"

definition Clean :: "string \<Rightarrow> string" where
  "Clean path =
     (if path = [] then ''.''
      else
        let rooted = (hd path = CHR ''/'');
            kept = fold (cleanStep rooted) (strSplit CHR ''/'' path) []
        in if rooted then CHR ''/'' # strJoin ''/'' (rev kept)
           else if kept = [] then ''.''
           else strJoin ''/'' (rev kept))"

text \<open>\<^verbatim>\<open>filepath.Join\<close>: leading empty elements are ignored, the rest is joined with
  \<^verbatim>\<open>/\<close> and cleaned; the result is empty when every element is empty.\<close>

definition Join :: "string list \<Rightarrow> string" where
  "Join elem =
     (case dropWhile (\<lambda>e. e = []) elem of
        [] \<Rightarrow> []
      | e # es \<Rightarrow> Clean (strJoin ''/'' (e # es)))"

text \<open>\<^verbatim>\<open>filepath.Base\<close>: trailing slashes are stripped, then the last element is taken.\<close>

definition Base :: "string \<Rightarrow> string" where
  "Base path =
     (if path = [] then ''.''
      else
        let stripped = rev (dropWhile (\<lambda>c. c = CHR ''/'') (rev path));
            elem = rev (takeWhile (\<lambda>c. c \<noteq> CHR ''/'') (rev stripped))
        in if elem = [] then ''/'' else elem)"

definition IsAbs :: "string \<Rightarrow> bool" where
  "IsAbs path = (path \<noteq> [] \<and> hd path = CHR ''/'')"

text \<open>The elements that \<^const>\<open>Clean\<close> keeps are not empty and hold no separator.\<close>

definition goodElems :: "string list \<Rightarrow> bool" where
  "goodElems kept = (\<forall>e \<in> set kept. e \<noteq> [] \<and> CHR ''/'' \<notin> set e)"

section \<open>Secret directories (build command)\<close>

text \<open>
  The file system is read through \<^verbatim>\<open>os.ReadDir\<close> and \<^verbatim>\<open>os.Stat\<close>.  An error is
  \<^verbatim>\<open>NotExist\<close> when \<^verbatim>\<open>os.IsNotExist\<close> holds of it.  \<^verbatim>\<open>entry.Type()\<close> gives the type
  bits of the entry itself; \<^verbatim>\<open>os.Stat\<close> follows symbolic links and gives the type of the
  target.
\<close>

datatype ioError = NotExist | OtherIOError

datatype fileType = Regular | Directory | Symlink | OtherType

record dirEntry =
  Name :: string
  Type :: fileType

record fileSystem =
  ReadDir :: "string \<Rightarrow> ioError + dirEntry list"
  Stat :: "string \<Rightarrow> ioError + fileType"
  Getwd :: "ioError + string"
  EvalSymlinks :: "string \<Rightarrow> ioError + string"

record secretDir =
  src :: string
  name :: string
  optional :: bool

record BuildahSecret =
  Src :: string
  Id :: string

datatype secretError =
    SecretDirUnreadable string ioError
  | StatFailed string ioError
  | DuplicateSecretID string

definition isRegular :: "fileSystem \<Rightarrow> dirEntry \<Rightarrow> string \<Rightarrow> secretError + bool" where
  "isRegular fs entry dir =
     (if Type entry = Regular then Inr True
      else if Type entry = Symlink then
        (let path = Join [dir, Name entry] in
         case Stat fs path of
           Inl err \<Rightarrow> Inl (StatFailed path err)
         | Inr mode \<Rightarrow> Inr (mode = Regular))
      else Inr False)"

text \<open>The inner loop of \<^verbatim>\<open>processSecretDirs\<close> over the entries of one directory.  The
  state is \<^verbatim>\<open>usedIDs\<close> (the keys stored with \<^verbatim>\<open>true\<close>) and \<^verbatim>\<open>buildahSecrets\<close>.\<close>

fun processEntries ::
  "fileSystem \<Rightarrow> secretDir \<Rightarrow> string \<Rightarrow> dirEntry list \<Rightarrow> string set \<times> BuildahSecret list
     \<Rightarrow> secretError + string set \<times> BuildahSecret list" where
  "processEntries fs secretDir idPrefix [] (usedIDs, buildahSecrets) = Inr (usedIDs, buildahSecrets)"
| "processEntries fs secretDir idPrefix (entry # entries) (usedIDs, buildahSecrets) =
     (case isRegular fs entry (src secretDir) of
        Inl err \<Rightarrow> Inl err
      | Inr isFile \<Rightarrow>
          if \<not> isFile then processEntries fs secretDir idPrefix entries (usedIDs, buildahSecrets)
          else
            let filename = Name entry;
                fullID = Join [idPrefix, filename]
            in if fullID \<in> usedIDs then Inl (DuplicateSecretID fullID)
               else processEntries fs secretDir idPrefix entries
                      (insert fullID usedIDs,
                       buildahSecrets @ [\<lparr>Src = Join [src secretDir, filename], Id = fullID\<rparr>]))"

definition idPrefixOf :: "secretDir \<Rightarrow> string" where
  "idPrefixOf secretDir = (if name secretDir = [] then Base (src secretDir) else name secretDir)"

text \<open>The outer loop over the directory specifications.\<close>

fun processDirs ::
  "fileSystem \<Rightarrow> secretDir list \<Rightarrow> string set \<times> BuildahSecret list
     \<Rightarrow> secretError + BuildahSecret list" where
  "processDirs fs [] (usedIDs, buildahSecrets) = Inr buildahSecrets"
| "processDirs fs (secretDir # secretDirs) (usedIDs, buildahSecrets) =
     (case ReadDir fs (src secretDir) of
        Inl err \<Rightarrow>
          if err = NotExist \<and> optional secretDir
          then processDirs fs secretDirs (usedIDs, buildahSecrets)
          else Inl (SecretDirUnreadable (src secretDir) err)
      | Inr entries \<Rightarrow>
          (case processEntries fs secretDir (idPrefixOf secretDir) entries (usedIDs, buildahSecrets) of
             Inl err \<Rightarrow> Inl err
           | Inr state \<Rightarrow> processDirs fs secretDirs state))"

definition processSecretDirs :: "fileSystem \<Rightarrow> secretDir list \<Rightarrow> secretError + BuildahSecret list" where
  "processSecretDirs fs secretDirs = processDirs fs secretDirs ({}, [])"

text \<open>
  The resolution in the specification's words: for each specification in order, and for
  each accepted entry of its listing in order, one mapping; a directory that is not listed
  gives none.
\<close>

definition acceptedEntries :: "fileSystem \<Rightarrow> secretDir \<Rightarrow> dirEntry list" where
  "acceptedEntries fs secretDir =
     (case ReadDir fs (src secretDir) of
        Inl err \<Rightarrow> []
      | Inr entries \<Rightarrow> filter (\<lambda>entry. isRegular fs entry (src secretDir) = Inr True) entries)"

definition mappingsOf :: "fileSystem \<Rightarrow> secretDir \<Rightarrow> BuildahSecret list" where
  "mappingsOf fs secretDir =
     map (\<lambda>entry. \<lparr>Src = Join [src secretDir, Name entry],
                    Id = Join [idPrefixOf secretDir, Name entry]\<rparr>)
         (acceptedEntries fs secretDir)"

definition allMappings :: "fileSystem \<Rightarrow> secretDir list \<Rightarrow> BuildahSecret list" where
  "allMappings fs secretDirs = concat (map (mappingsOf fs) secretDirs)"

text \<open>
  What the directories and their entries would produce, one after the other and whether or
  not the resolution gets that far: a directory that cannot be read gives its failure
  (none when it is optional and does not exist), an entry whose stat fails gives that
  failure, an accepted entry gives its mapping, any other entry gives nothing.
\<close>

definition entrySteps :: "fileSystem \<Rightarrow> secretDir \<Rightarrow> dirEntry \<Rightarrow> (secretError + BuildahSecret) list" where
  "entrySteps fs secretDir entry =
     (case isRegular fs entry (src secretDir) of
        Inl err \<Rightarrow> [Inl err]
      | Inr isFile \<Rightarrow>
          if isFile
          then [Inr \<lparr>Src = Join [src secretDir, Name entry],
                     Id = Join [idPrefixOf secretDir, Name entry]\<rparr>]
          else [])"

definition dirSteps :: "fileSystem \<Rightarrow> secretDir \<Rightarrow> (secretError + BuildahSecret) list" where
  "dirSteps fs secretDir =
     (case ReadDir fs (src secretDir) of
        Inl err \<Rightarrow>
          if err = NotExist \<and> optional secretDir then []
          else [Inl (SecretDirUnreadable (src secretDir) err)]
      | Inr entries \<Rightarrow> concat (map (entrySteps fs secretDir) entries))"

definition steps :: "fileSystem \<Rightarrow> secretDir list \<Rightarrow> (secretError + BuildahSecret) list" where
  "steps fs secretDirs = concat (map (dirSteps fs) secretDirs)"

text \<open>The fail-fast resolution over such a list: the first failure, or the first mapping
  whose id was produced before, ends it.\<close>

fun scanSteps ::
  "string set \<times> BuildahSecret list \<Rightarrow> (secretError + BuildahSecret) list
     \<Rightarrow> secretError + string set \<times> BuildahSecret list" where
  "scanSteps (used, acc) [] = Inr (used, acc)"
| "scanSteps (used, acc) (Inl err # rest) = Inl err"
| "scanSteps (used, acc) (Inr m # rest) =
     (if Id m \<in> used then Inl (DuplicateSecretID (Id m))
      else scanSteps (insert (Id m) used, acc @ [m]) rest)"

text \<open>The ids as the specification writes them, \<^verbatim>\<open>idPrefix + "/" + filename\<close>, of the
  accepted entries of all directories, in order.\<close>

definition rawIds :: "fileSystem \<Rightarrow> secretDir list \<Rightarrow> string list" where
  "rawIds fs secretDirs =
     concat (map (\<lambda>secretDir. map (\<lambda>entry. idPrefixOf secretDir @ ''/'' @ Name entry)
                                  (acceptedEntries fs secretDir)) secretDirs)"

text \<open>A file system for the examples: a Kubernetes-style secret volume
  \<^verbatim>\<open>/run/a/secret1\<close> with \<^verbatim>\<open>token -> ..data/token\<close> (a file) and \<^verbatim>\<open>data -> ..data\<close>
  (a directory), a plain directory \<^verbatim>\<open>/run/b/secret1\<close>, and a directory \<^verbatim>\<open>secrets\<close>
  below the working directory \<^verbatim>\<open>/work\<close>.\<close>

definition demoFS :: fileSystem where
  "demoFS =
     \<lparr>ReadDir = (\<lambda>path.
         if path = ''/run/a/secret1'' then
           Inr [\<lparr>Name = ''..data'', Type = Directory\<rparr>,
                \<lparr>Name = ''data'', Type = Symlink\<rparr>,
                \<lparr>Name = ''token'', Type = Symlink\<rparr>]
         else if path = ''/run/b/secret1'' then
           Inr [\<lparr>Name = ''password'', Type = Regular\<rparr>, \<lparr>Name = ''token'', Type = Regular\<rparr>]
         else if path = ''secrets'' then Inr [\<lparr>Name = ''token'', Type = Regular\<rparr>]
         else if path = ''/run/locked'' then Inl OtherIOError
         else Inl NotExist),
      Stat = (\<lambda>path.
         if path = ''/run/a/secret1/token'' then Inr Regular
         else if path = ''/run/a/secret1/data'' then Inr Directory
         else Inl NotExist),
      Getwd = Inr ''/work'',
      EvalSymlinks = (\<lambda>path. Inl NotExist)\<rparr>"

section \<open>Build-file discovery\<close>

text \<open>
  \<^verbatim>\<open>filepath.Rel(basepath, targpath)\<close> of the Go library on a Unix system.  The loop
  advances over the leading elements that the two cleaned paths share; the function below
  takes what is left of \<^verbatim>\<open>base\<close> and of \<^verbatim>\<open>targ\<close> and returns \<^verbatim>\<open>base[b0:]\<close>,
  \<^verbatim>\<open>base[b0:bi]\<close> and \<^verbatim>\<open>targ[t0:]\<close> as they are when the loop ends.
\<close>

function relLoop :: "string \<Rightarrow> string \<Rightarrow> string \<times> string \<times> string" where
  "relLoop base targ =
     (if base = [] \<or> targ = [] then (base, [], targ)
      else
        let belem = takeWhile (\<lambda>c. c \<noteq> CHR ''/'') base;
            telem = takeWhile (\<lambda>c. c \<noteq> CHR ''/'') targ
        in if telem \<noteq> belem then (base, belem, targ)
           else relLoop (drop (Suc (length belem)) base) (drop (Suc (length telem)) targ))"
  by pat_completeness auto
termination
  by (relation "measure (\<lambda>(base, targ). length base)") auto

declare relLoop.simps [simp del]

datatype relError = RelError

definition Rel :: "string \<Rightarrow> string \<Rightarrow> relError + string" where
  "Rel basepath targpath =
     (let base = Clean basepath; targ = Clean targpath in
      if targ = base then Inr ''.''
      else
        let base' = (if base = ''.'' then [] else base);
            baseSlashed = (base' \<noteq> [] \<and> hd base' = CHR ''/'');
            targSlashed = (targ \<noteq> [] \<and> hd targ = CHR ''/'')
        in if baseSlashed \<noteq> targSlashed then Inl RelError
           else
             (case relLoop base' targ of
                (restBase, belem, restTarg) \<Rightarrow>
                  if belem = ''..'' then Inl RelError
                  else if restBase \<noteq> [] then
                    Inr (''..'' @ concat (replicate (count_list restBase CHR ''/'') ''/..'')
                          @ (if restTarg \<noteq> [] then CHR ''/'' # restTarg else []))
                  else Inr restTarg))"

definition isRelativeTo :: "string \<Rightarrow> string \<Rightarrow> bool" where
  "isRelativeTo path base =
     (case Rel base path of
        Inl err \<Rightarrow> False
      | Inr rel \<Rightarrow> \<not> prefix ''..'' rel)"

text \<open>Containment in the specification's words, on canonical absolute paths: the candidate
  is the boundary itself or lies below it.\<close>

definition isContained :: "string \<Rightarrow> string \<Rightarrow> bool" where
  "isContained candidate boundary =
     (candidate = boundary \<or> prefix (boundary @ ''/'') candidate \<or>
      (boundary = ''/'' \<and> prefix ''/'' candidate))"

record DockerfileSearchOpts =
  SourceDir :: string
  ContextDir :: string
  Dockerfile :: string

text \<open>One constructor for each \<^verbatim>\<open>fmt.Errorf\<close> of \<^verbatim>\<open>SearchDockerfile\<close>, with the values
  formatted into the message.\<close>

datatype searchError =
    MissingSourceDirectory
  | AbsFailed ioError
  | SourceSymlinkFailed string ioError
  | DockerfileSymlinkFailed string ioError
  | EscapeDetected string string

definition Abs :: "fileSystem \<Rightarrow> string \<Rightarrow> ioError + string" where
  "Abs fs path =
     (if IsAbs path then Inr (Clean path)
      else case Getwd fs of
             Inl err \<Rightarrow> Inl err
           | Inr wd \<Rightarrow> Inr (Join [wd, path]))"

text \<open>The loop of \<^verbatim>\<open>_search\<close> over \<^verbatim>\<open>possibleDockerfiles\<close>; the empty string is
  ``no Dockerfile is found''.\<close>

fun searchPaths :: "fileSystem \<Rightarrow> string \<Rightarrow> string \<Rightarrow> string list \<Rightarrow> searchError + string" where
  "searchPaths fs actualAbsSourcePath dockerfile [] = Inr []"
| "searchPaths fs actualAbsSourcePath dockerfile (dockerfilePath # paths) =
     (case EvalSymlinks fs dockerfilePath of
        Inl err \<Rightarrow>
          if err \<noteq> NotExist then Inl (DockerfileSymlinkFailed dockerfilePath err)
          else searchPaths fs actualAbsSourcePath dockerfile paths
      | Inr actualDockerfilePath \<Rightarrow>
          if \<not> isRelativeTo actualDockerfilePath actualAbsSourcePath
          then Inl (EscapeDetected dockerfile actualAbsSourcePath)
          else Inr actualDockerfilePath)"

definition search :: "fileSystem \<Rightarrow> string \<Rightarrow> string \<Rightarrow> string \<Rightarrow> searchError + string" where
  "search fs actualAbsSourcePath contextDir dockerfile =
     searchPaths fs actualAbsSourcePath dockerfile
       [Join [actualAbsSourcePath, contextDir, dockerfile], Join [actualAbsSourcePath, dockerfile]]"

text \<open>The loop over \<^verbatim>\<open>./Containerfile\<close> and \<^verbatim>\<open>./Dockerfile\<close>.\<close>

fun searchNames :: "fileSystem \<Rightarrow> string \<Rightarrow> string \<Rightarrow> string list \<Rightarrow> searchError + string" where
  "searchNames fs actualAbsSourcePath contextDir [] = Inr []"
| "searchNames fs actualAbsSourcePath contextDir (dockerfile # names) =
     (case search fs actualAbsSourcePath contextDir dockerfile of
        Inl err \<Rightarrow> Inl err
      | Inr dockerfilePath \<Rightarrow>
          if dockerfilePath \<noteq> [] then Inr dockerfilePath
          else searchNames fs actualAbsSourcePath contextDir names)"

definition SearchDockerfile :: "fileSystem \<Rightarrow> DockerfileSearchOpts \<Rightarrow> searchError + string" where
  "SearchDockerfile fs opts =
     (if SourceDir opts = [] then Inl MissingSourceDirectory
      else
        let contextDir = (if ContextDir opts = [] then ''.'' else ContextDir opts) in
        case Abs fs (SourceDir opts) of
          Inl err \<Rightarrow> Inl (AbsFailed err)
        | Inr absSourceDir \<Rightarrow>
            (case EvalSymlinks fs absSourceDir of
               Inl err \<Rightarrow> Inl (SourceSymlinkFailed absSourceDir err)
             | Inr actualAbsSourcePath \<Rightarrow>
                 if Dockerfile opts = []
                 then searchNames fs actualAbsSourcePath contextDir [''./Containerfile'', ''./Dockerfile'']
                 else search fs actualAbsSourcePath contextDir (Dockerfile opts)))"

text \<open>
  The search in the specification's words.  The candidates are, for each build-file name
  in order, the location below the context directory and then the location below the
  source directory; the first candidate that exists decides: it is returned when it is
  contained in the boundary and is an escape otherwise, and a resolution failure other
  than ``does not exist'' is an error.
\<close>

definition candidates :: "string \<Rightarrow> string \<Rightarrow> string \<Rightarrow> (string \<times> string) list" where
  "candidates boundary contextDir explicitFile =
     concat (map (\<lambda>file. [(file, Join [boundary, contextDir, file]), (file, Join [boundary, file])])
                 (if explicitFile = [] then [''./Containerfile'', ''./Dockerfile''] else [explicitFile]))"

fun firstHit :: "fileSystem \<Rightarrow> string \<Rightarrow> (string \<times> string) list \<Rightarrow> searchError + string" where
  "firstHit fs boundary [] = Inr []"
| "firstHit fs boundary ((file, path) # rest) =
     (case EvalSymlinks fs path of
        Inl NotExist \<Rightarrow> firstHit fs boundary rest
      | Inl OtherIOError \<Rightarrow> Inl (DockerfileSymlinkFailed path OtherIOError)
      | Inr resolved \<Rightarrow>
          if isRelativeTo resolved boundary then Inr resolved
          else Inl (EscapeDetected file boundary))"

text \<open>\<^verbatim>\<open>filepath.EvalSymlinks\<close> returns a cleaned path, and an absolute one for an absolute
  path; \<^verbatim>\<open>os.Getwd\<close> returns an absolute path.\<close>

definition resolvesCanonically :: "fileSystem \<Rightarrow> bool" where
  "resolvesCanonically fs =
     ((\<forall>path resolved. EvalSymlinks fs path = Inr resolved \<longrightarrow>
         Clean resolved = resolved \<and> (IsAbs path \<longrightarrow> IsAbs resolved)) \<and>
      (\<forall>wd. Getwd fs = Inr wd \<longrightarrow> IsAbs wd))"

text \<open>The source tree of the examples, below \<^verbatim>\<open>/tmp/s\<close>: the context directory
  \<^verbatim>\<open>ctx\<close> is a symbolic link to \<^verbatim>\<open>/tmp/outside\<close>, which holds a \<^verbatim>\<open>Dockerfile\<close>;
  \<^verbatim>\<open>app\<close> holds a \<^verbatim>\<open>Containerfile\<close> and a \<^verbatim>\<open>Dockerfile\<close>; \<^verbatim>\<open>vol/Dockerfile\<close> is a
  symbolic link to \<^verbatim>\<open>..data/Dockerfile\<close>; \<^verbatim>\<open>locked\<close> cannot be read.  \<^verbatim>\<open>/tmp/k\<close> is a Kubernetes-style volume whose
  \<^verbatim>\<open>Dockerfile\<close> is a symbolic link to \<^verbatim>\<open>..data/Dockerfile\<close>; \<^verbatim>\<open>/tmp/e\<close> is empty;
  \<^verbatim>\<open>/tmp/link\<close> is a symbolic link to \<^verbatim>\<open>/tmp/s\<close>; \<^verbatim>\<open>/tmp/p\<close> holds a
  \<^verbatim>\<open>Containerfile\<close> and \<^verbatim>\<open>sub/Dockerfile\<close>.\<close>

definition treeFS :: fileSystem where
  "treeFS =
     \<lparr>ReadDir = (\<lambda>path. Inl NotExist),
      Stat = (\<lambda>path. Inl NotExist),
      Getwd = Inr ''/tmp'',
      EvalSymlinks = (\<lambda>path.
         if path = ''/tmp/s'' then Inr ''/tmp/s''
         else if path = ''/tmp/s/ctx/Dockerfile'' then Inr ''/tmp/outside/Dockerfile''
         else if path = ''/tmp/s/app/Containerfile'' then Inr ''/tmp/s/app/Containerfile''
         else if path = ''/tmp/s/app/Dockerfile'' then Inr ''/tmp/s/app/Dockerfile''
         else if path = ''/tmp/s/Dockerfile'' then Inr ''/tmp/s/Dockerfile''
         else if path = ''/tmp/s/vol/Dockerfile'' then Inr ''/tmp/s/vol/..data/Dockerfile''
         else if path = ''/tmp/s/locked/Containerfile'' then Inl OtherIOError
         else if path = ''/tmp/k'' then Inr ''/tmp/k''
         else if path = ''/tmp/k/Dockerfile'' then Inr ''/tmp/k/..data/Dockerfile''
         else if path = ''/tmp/e'' then Inr ''/tmp/e''
         else if path = ''/tmp/link'' then Inr ''/tmp/s''
         else if path = ''/tmp/s/outside.Dockerfile'' then Inr ''/tmp/outside/Dockerfile''
         else if path = ''/tmp/s/app/Custom'' then Inr ''/tmp/s/app/Custom''
         else if path = ''/tmp/s/Custom'' then Inr ''/tmp/s/Custom''
         else if path = ''/tmp/p'' then Inr ''/tmp/p''
         else if path = ''/tmp/p/Containerfile'' then Inr ''/tmp/p/Containerfile''
         else if path = ''/tmp/p/sub/Dockerfile'' then Inr ''/tmp/p/sub/Dockerfile''
         else Inl NotExist)\<rparr>"

text \<open>What the loop of \<^verbatim>\<open>filepath.Rel\<close> leaves: both paths are a common part followed by
  the rests, or one path is used up where the other goes on after a separator.\<close>

definition relInv :: "string \<Rightarrow> string \<Rightarrow> string \<Rightarrow> string \<Rightarrow> bool" where
  "relInv base targ restBase restTarg =
     ((\<exists>c. base = c @ restBase \<and> targ = c @ restTarg \<and> (c = [] \<or> last c = CHR ''/'')) \<or>
      (restBase = [] \<and> targ = base @ CHR ''/'' # restTarg) \<or>
      (restTarg = [] \<and> base = targ @ CHR ''/'' # restBase) \<or>
      (restBase = [] \<and> restTarg = [] \<and> base = targ))"

section \<open>Properties of splitting and joining\<close>

lemma consHead_ne [simp]: "consHead x ws \<noteq> []"
  by (cases ws) auto

lemma strSplit_ne [simp]: "strSplit c s \<noteq> []"
  by (induction s) auto

lemma strJoin_Cons: "ys \<noteq> [] \<Longrightarrow> strJoin sep (x # ys) = x @ sep @ strJoin sep ys"
  by (cases ys) auto

lemma strJoin_strSplit [simp]: "strJoin [c] (strSplit c s) = s"
proof (induction s)
  case Nil
  show ?case by simp
next
  case (Cons x xs)
  obtain w ws where e: "strSplit c xs = w # ws" by (cases "strSplit c xs") auto
  with Cons show ?case by (cases ws) (auto simp: strJoin_Cons)
qed

lemma strSplit_no_sep: "w \<in> set (strSplit c s) \<Longrightarrow> c \<notin> set w"
proof (induction s arbitrary: w)
  case Nil
  then show ?case by simp
next
  case (Cons x xs)
  obtain v vs where e: "strSplit c xs = v # vs" by (cases "strSplit c xs") auto
  with Cons show ?case by (auto split: if_splits)
qed

lemma strJoin_snoc: "segs \<noteq> [] \<Longrightarrow> strJoin sep (segs @ [w]) = strJoin sep segs @ sep @ w"
proof (induction segs)
  case Nil
  then show ?case by simp
next
  case (Cons a segs)
  then show ?case by (cases segs) (auto simp: strJoin_Cons)
qed

lemma lastIndex_none: "c \<notin> set s \<Longrightarrow> lastIndex c s = None"
  by (simp add: lastIndex_def)

lemma lastIndex_append: "c \<notin> set w \<Longrightarrow> lastIndex c (p @ c # w) = Some (length p)"
proof -
  assume a: "c \<notin> set w"
  then have "takeWhile (\<lambda>x. x \<noteq> c) (rev w @ c # rev p) = rev w"
    by (auto simp: takeWhile_tail)
  then show ?thesis by (simp add: lastIndex_def)
qed

section \<open>Properties of the registry credential selection\<close>

lemma findAuthLoop_chain:
  assumes "segs \<noteq> []" and "\<forall>w \<in> set segs. CHR ''/'' \<notin> set w"
  shows "findAuthLoop auths (strJoin ''/'' segs) =
         (case find (\<lambda>scope. auths scope \<noteq> None) (map (strJoin ''/'') (rev (tl (prefixes segs)))) of
            Some scope \<Rightarrow> auths scope | None \<Rightarrow> None)"
  using assms
proof (induction segs rule: rev_nonempty_induct)
  case (single w)
  then show ?case
    by (subst findAuthLoop.simps) (auto simp: lastIndex_none split: option.splits)
next
  case (snoc w segs)
  have key: "strJoin ''/'' (segs @ [w]) = strJoin ''/'' segs @ CHR ''/'' # w"
    using snoc(1) by (simp add: strJoin_snoc)
  have li: "lastIndex CHR ''/'' (strJoin ''/'' segs @ CHR ''/'' # w) = Some (length (strJoin ''/'' segs))"
    using snoc(3) by (simp add: lastIndex_append)
  have ch: "rev (tl (prefixes (segs @ [w]))) = (segs @ [w]) # rev (tl (prefixes segs))"
    by (cases "prefixes segs") auto
  from snoc have ih: "findAuthLoop auths (strJoin ''/'' segs) =
         (case find (\<lambda>scope. auths scope \<noteq> None) (map (strJoin ''/'') (rev (tl (prefixes segs)))) of
            Some scope \<Rightarrow> auths scope | None \<Rightarrow> None)"
    by simp
  show ?case
    unfolding ch key
    by (subst findAuthLoop.simps) (simp add: li ih key split: option.splits)
qed

lemma findAuthLoop_scopeChain:
  "findAuthLoop auths imageRepo =
     (case find (\<lambda>scope. auths scope \<noteq> None) (scopeChain imageRepo) of
        Some scope \<Rightarrow> auths scope | None \<Rightarrow> None)"
proof -
  have "findAuthLoop auths (strJoin ''/'' (strSplit CHR ''/'' imageRepo)) =
     (case find (\<lambda>scope. auths scope \<noteq> None) (scopeChain imageRepo) of
        Some scope \<Rightarrow> auths scope | None \<Rightarrow> None)"
    unfolding scopeChain_def
    by (rule findAuthLoop_chain) (auto dest: strSplit_no_sep)
  then show ?thesis by simp
qed

lemma scopeChain_ends:
  "scopeChain imageRepo \<noteq> [] \<and> hd (scopeChain imageRepo) = imageRepo \<and>
   last (scopeChain imageRepo) = hd (strSplit CHR ''/'' imageRepo)"
proof -
  obtain w ws where e: "strSplit CHR ''/'' imageRepo = w # ws"
    by (cases "strSplit CHR ''/'' imageRepo") auto
  have "prefixes (w # ws) = [] # map ((#) w) (prefixes ws)" by simp
  moreover have "prefixes ws \<noteq> []" by simp
  moreover have "hd (prefixes ws) = []" by (cases ws) (simp_all add: hd_map)
  moreover have "last (prefixes ws) = ws" by simp
  moreover have "strJoin ''/'' (w # ws) = imageRepo"
    using strJoin_strSplit [of "CHR ''/''" imageRepo] e by simp
  ultimately show ?thesis
    unfolding scopeChain_def e
    by (simp add: hd_rev last_rev last_map hd_map rev_map[symmetric] del: prefixes.simps)
qed

lemma lastIndex_split:
  assumes "lastIndex c s = Some i"
  shows "s = take i s @ c # drop (Suc i) s \<and> c \<notin> set (drop (Suc i) s)"
proof -
  let ?P = "\<lambda>x. x \<noteq> c"
  from assms have m: "c \<in> set s" and i: "i = length s - Suc (length (takeWhile ?P (rev s)))"
    by (auto simp: lastIndex_def split: if_splits)
  from m have "dropWhile ?P (rev s) \<noteq> []" by simp
  then obtain x rest where d: "dropWhile ?P (rev s) = x # rest"
    by (cases "dropWhile ?P (rev s)") auto
  then have "x = c" using hd_dropWhile [of ?P "rev s"] by (metis list.distinct(1) list.sel(1))
  with d have r: "rev s = takeWhile ?P (rev s) @ c # rest"
    using takeWhile_dropWhile_id [of ?P "rev s"] by simp
  then have "rev (rev s) = rev (takeWhile ?P (rev s) @ c # rest)" by simp
  then have s: "s = rev rest @ c # rev (takeWhile ?P (rev s))" by simp
  then have "length s = length rest + Suc (length (takeWhile ?P (rev s)))"
    by (metis length_append length_rev length_Cons)
  with i have il: "i = length rest" by simp
  have ns: "c \<notin> set (rev (takeWhile ?P (rev s)))"
    using set_takeWhileD [of c ?P "rev s"] by auto
  from s il have "take i s = rev rest"
    by (metis append_eq_conv_conj length_rev)
  moreover from s il have "drop (Suc i) s = rev (takeWhile ?P (rev s))"
    by (metis append_eq_conv_conj length_rev append.assoc append_Cons append_Nil length_append_singleton)
  ultimately show ?thesis using s ns by simp
qed

lemma tagChar_no_colon: "isTagChar c \<Longrightarrow> c \<noteq> CHR '':''"
  by (auto simp: isTagChar_def isTagFirstChar_def)

lemma validTag_no_colon: "validTag t \<Longrightarrow> CHR '':'' \<notin> set t"
proof -
  assume v: "validTag t"
  then obtain c cs where t: "t = c # cs" by (cases t) (auto simp: validTag_def)
  with v have "isTagChar c" and "list_all isTagChar cs"
    by (auto simp: validTag_def isTagChar_def)
  with t show ?thesis by (auto simp: list_all_iff dest: tagChar_no_colon)
qed

lemma stripTagSuffix_tag: "validTag t \<Longrightarrow> stripTagSuffix (r @ '':'' @ t) = r"
proof -
  assume v: "validTag t"
  then have "lastIndex CHR '':'' (r @ CHR '':'' # t) = Some (length r)"
    by (intro lastIndex_append validTag_no_colon)
  moreover from v obtain c cs where "t = c # cs" "isTagFirstChar c" "list_all isTagChar cs" "length cs \<le> 127"
    by (cases t) (auto simp: validTag_def)
  ultimately show ?thesis by (simp add: stripTagSuffix_def)
qed

lemma stripTagSuffix_none: "\<not> hasTagSuffix s \<Longrightarrow> stripTagSuffix s = s"
proof (rule ccontr)
  assume n: "\<not> hasTagSuffix s" and d: "stripTagSuffix s \<noteq> s"
  from d obtain i c cs where i: "lastIndex CHR '':'' s = Some i" and r: "drop (Suc i) s = c # cs"
    and v: "isTagFirstChar c" "list_all isTagChar cs" "length cs \<le> 127"
    by (auto simp: stripTagSuffix_def split: option.splits list.splits if_splits)
  from lastIndex_split [OF i] r have "s = take i s @ '':'' @ (c # cs)" by simp
  moreover from v have "validTag (c # cs)" by (simp add: validTag_def)
  ultimately have "hasTagSuffix s" unfolding hasTagSuffix_def by blast
  with n show False by simp
qed

lemma stripDigestSuffix_digest: "validDigest d \<Longrightarrow> stripDigestSuffix (r @ ''@sha256:'' @ d) = r"
  by (simp add: stripDigestSuffix_def validDigest_def Let_def)

lemma stripDigestSuffix_none: "\<not> hasDigestSuffix s \<Longrightarrow> stripDigestSuffix s = s"
proof (rule ccontr)
  assume n: "\<not> hasDigestSuffix s" and d: "stripDigestSuffix s \<noteq> s"
  let ?n = "length s"
  from d have l: "72 \<le> ?n" and p: "take 8 (drop (?n - 72) s) = ''@sha256:''"
    and h: "list_all isHexDigit (drop (?n - 64) s)"
    by (auto simp: stripDigestSuffix_def Let_def split: if_splits)
  from l have "drop 8 (drop (?n - 72) s) = drop (?n - 64) s" by simp
  then have "drop (?n - 72) s = take 8 (drop (?n - 72) s) @ drop (?n - 64) s"
    by (metis append_take_drop_id)
  with p have "s = take (?n - 72) s @ ''@sha256:'' @ drop (?n - 64) s"
    by (metis append_take_drop_id)
  moreover from l h have "validDigest (drop (?n - 64) s)" by (simp add: validDigest_def)
  ultimately have "hasDigestSuffix s" unfolding hasDigestSuffix_def by blast
  with n show False by simp
qed

lemma GetImageName_parsesAs: "parsesAs imageRef repo tag digest \<Longrightarrow> GetImageName imageRef = repo"
proof -
  assume p: "parsesAs imageRef repo tag digest"
  let ?mid = "repo @ (case tag of None \<Rightarrow> [] | Some t \<Rightarrow> '':'' @ t)"
  have "stripDigestSuffix imageRef = ?mid"
  proof (cases digest)
    case None
    with p have e: "imageRef = ?mid" and n: "\<not> hasDigestSuffix imageRef"
      by (auto simp: parsesAs_def imageReference_def)
    from n have "stripDigestSuffix imageRef = imageRef" by (rule stripDigestSuffix_none)
    with e show ?thesis by simp
  next
    case (Some d)
    with p have "validDigest d" and "imageRef = ?mid @ ''@sha256:'' @ d"
      by (simp_all add: parsesAs_def imageReference_def)
    then show ?thesis using stripDigestSuffix_digest [of d ?mid] by simp
  qed
  moreover have "stripTagSuffix ?mid = repo"
  proof (cases tag)
    case None
    with p show ?thesis by (simp add: parsesAs_def stripTagSuffix_none)
  next
    case (Some t)
    with p have "validTag t" by (simp add: parsesAs_def)
    with Some show ?thesis using stripTagSuffix_tag [of t repo] by simp
  qed
  ultimately show ?thesis by (simp add: GetImageName_def)
qed

lemma every_reference_parses: "\<exists>repo tag digest. parsesAs imageRef repo tag digest"
proof -
  obtain mid digest where m: "imageRef = mid @ (case digest of None \<Rightarrow> [] | Some d \<Rightarrow> ''@sha256:'' @ d)"
    and dv: "case digest of Some d \<Rightarrow> validDigest d | None \<Rightarrow> \<not> hasDigestSuffix imageRef"
  proof (cases "hasDigestSuffix imageRef")
    case True
    then obtain r d where "imageRef = r @ ''@sha256:'' @ d" "validDigest d"
      unfolding hasDigestSuffix_def by blast
    then show ?thesis using that [of r "Some d"] by simp
  next
    case False
    then show ?thesis using that [of imageRef None] by simp
  qed
  obtain repo tag where r: "mid = repo @ (case tag of None \<Rightarrow> [] | Some t \<Rightarrow> '':'' @ t)"
    and tv: "case tag of Some t \<Rightarrow> validTag t | None \<Rightarrow> \<not> hasTagSuffix repo"
  proof (cases "hasTagSuffix mid")
    case True
    then obtain r t where "mid = r @ '':'' @ t" "validTag t"
      unfolding hasTagSuffix_def by blast
    then show ?thesis using that [of r "Some t"] by simp
  next
    case False
    then show ?thesis using that [of mid None] by simp
  qed
  from m r have "imageRef = imageReference repo tag digest"
    by (simp add: imageReference_def)
  with dv tv have "parsesAs imageRef repo tag digest"
    unfolding parsesAs_def by blast
  then show ?thesis by blast
qed

lemma hasTagSuffix_colon: "hasTagSuffix s \<Longrightarrow> CHR '':'' \<in> set s"
  by (auto simp: hasTagSuffix_def)

lemma hasDigestSuffix_at: "hasDigestSuffix s \<Longrightarrow> CHR ''@'' \<in> set s"
  by (auto simp: hasDigestSuffix_def)

lemma SelectRegistryAuth_matchedAuth:
  assumes "GetImageName imageRef = imageRepo" and "readAuthFile authFilePath = Inr auths"
  shows "SelectRegistryAuth readAuthFile imageRef authFilePath =
           (if imageRepo = [] then Inl (InvalidImageReference imageRef)
            else case matchedAuth auths imageRepo of
                   None \<Rightarrow> Inl (AuthNotConfigured imageRepo)
                 | Some token \<Rightarrow>
                     if token = [] then Inl (AuthNotConfigured imageRepo)
                     else Inr \<lparr>Registry = hd (strSplit CHR ''/'' imageRepo), Token = token\<rparr>)"
proof -
  have "findAuth auths imageRepo = (case matchedAuth auths imageRepo of None \<Rightarrow> [] | Some token \<Rightarrow> token)"
  proof (cases "find (\<lambda>scope. auths scope \<noteq> None) (scopeChain imageRepo)")
    case None
    then show ?thesis
      by (simp add: findAuth_def matchedAuth_def findAuthLoop_scopeChain split: option.splits)
  next
    case (Some scope)
    then have "auths scope \<noteq> None" by (auto simp: find_Some_iff)
    with Some show ?thesis
      by (auto simp: findAuth_def matchedAuth_def findAuthLoop_scopeChain)
  qed
  then show ?thesis
    using assms by (auto simp: SelectRegistryAuth_def Let_def split: option.splits)
qed

text \<open>
  Claim C2, as the code has it.  Every image reference is a repository path followed by an
  optional tag and an optional digest, with nothing strippable left in the path, and
  \<^verbatim>\<open>GetImageName\<close> returns that path.  When the auth file loads, \<^verbatim>\<open>SelectRegistryAuth\<close>
  fails with \<^verbatim>\<open>InvalidImageReference\<close> if the path is empty.  Otherwise it takes the
  entry of the first scope, in the order repository path, path without its last segment,
  ..., bare registry, that is a key of the file; if no scope of the chain is a key and the
  registry is \<^verbatim>\<open>docker.io\<close> it takes the entry of \<^verbatim>\<open>https://index.docker.io/v1/\<close>.
  Without an entry, or when the entry holds an empty auth string, it fails with
  \<^verbatim>\<open>AuthNotConfigured\<close> naming the repository; otherwise it returns the first segment of
  the repository path as registry and the auth string of the entry as token.
\<close>

theorem SelectRegistryAuth_longest_prefix:
  "(\<exists>repo tag digest. parsesAs imageRef repo tag digest) \<and>
   (\<forall>repo tag digest auths.
      parsesAs imageRef repo tag digest \<and> readAuthFile authFilePath = Inr auths \<longrightarrow>
        GetImageName imageRef = repo \<and>
        SelectRegistryAuth readAuthFile imageRef authFilePath =
          (if repo = [] then Inl (InvalidImageReference imageRef)
           else case matchedAuth auths repo of
                  None \<Rightarrow> Inl (AuthNotConfigured repo)
                | Some token \<Rightarrow>
                    if token = [] then Inl (AuthNotConfigured repo)
                    else Inr \<lparr>Registry = hd (strSplit CHR ''/'' repo), Token = token\<rparr>)) \<and>
   (\<forall>repo. hd (scopeChain repo) = repo \<and> last (scopeChain repo) = hd (strSplit CHR ''/'' repo))"
proof (intro conjI allI impI)
  show "\<exists>repo tag digest. parsesAs imageRef repo tag digest"
    by (rule every_reference_parses)
next
  fix repo tag digest auths
  assume "parsesAs imageRef repo tag digest \<and> readAuthFile authFilePath = Inr auths"
  then show "GetImageName imageRef = repo"
    using GetImageName_parsesAs [of imageRef repo tag digest] by blast
next
  fix repo tag digest auths
  assume a: "parsesAs imageRef repo tag digest \<and> readAuthFile authFilePath = Inr auths"
  then have "GetImageName imageRef = repo"
    using GetImageName_parsesAs [of imageRef repo tag digest] by blast
  from SelectRegistryAuth_matchedAuth [OF this] a
  show "SelectRegistryAuth readAuthFile imageRef authFilePath =
          (if repo = [] then Inl (InvalidImageReference imageRef)
           else case matchedAuth auths repo of
                  None \<Rightarrow> Inl (AuthNotConfigured repo)
                | Some token \<Rightarrow>
                    if token = [] then Inl (AuthNotConfigured repo)
                    else Inr \<lparr>Registry = hd (strSplit CHR ''/'' repo), Token = token\<rparr>)"
    by blast
next
  fix repo
  show "hd (scopeChain repo) = repo" using scopeChain_ends [of repo] by simp
next
  fix repo
  show "last (scopeChain repo) = hd (strSplit CHR ''/'' repo)" using scopeChain_ends [of repo] by simp
qed

theorem SelectRegistryAuth_longest_prefix_witness:
  "parsesAs ''reg.io/foo/bar/baz:0.1@sha256:0123456789abcdef0123456789abcdef0123456789abcdef0123456789ABCDEF''
     ''reg.io/foo/bar/baz'' (Some ''0.1'')
     (Some ''0123456789abcdef0123456789abcdef0123456789abcdef0123456789ABCDEF'') \<and>
   GetImageName ''reg.io/foo/bar/baz:0.1@sha256:0123456789abcdef0123456789abcdef0123456789abcdef0123456789ABCDEF''
     = ''reg.io/foo/bar/baz'' \<and>
   SelectRegistryAuth
     (\<lambda>path. Inr (map_of [(''reg.io'', ''cmVn''), (''reg.io/foo/bar'', ''Zm9v'')]) :: unit + RegistryAuths)
     ''reg.io/foo/bar/baz:0.1@sha256:0123456789abcdef0123456789abcdef0123456789abcdef0123456789ABCDEF''
     ''auth.json''
   = Inr \<lparr>Registry = ''reg.io'', Token = ''Zm9v''\<rparr> \<and>
   parsesAs ''reg.io/foo/qux'' ''reg.io/foo/qux'' None None \<and>
   SelectRegistryAuth
     (\<lambda>path. Inr (map_of [(''reg.io'', ''cmVn''), (''reg.io/foo/bar'', ''Zm9v'')]) :: unit + RegistryAuths)
     ''reg.io/foo/qux'' ''auth.json''
   = Inr \<lparr>Registry = ''reg.io'', Token = ''cmVn''\<rparr>"
proof -
  let ?auths = "map_of [(''reg.io'', ''cmVn''), (''reg.io/foo/bar'', ''Zm9v'')]"
  let ?rd = "\<lambda>path. Inr ?auths :: unit + RegistryAuths"
  let ?ref = "''reg.io/foo/bar/baz:0.1@sha256:0123456789abcdef0123456789abcdef0123456789abcdef0123456789ABCDEF''"
  let ?d = "''0123456789abcdef0123456789abcdef0123456789abcdef0123456789ABCDEF''"
  have vd: "validDigest ?d" by code_simp
  have vt: "validTag ''0.1''" by code_simp
  have ir: "?ref = imageReference ''reg.io/foo/bar/baz'' (Some ''0.1'') (Some ?d)"
    by (simp add: imageReference_def)
  from ir vd vt have p: "parsesAs ?ref ''reg.io/foo/bar/baz'' (Some ''0.1'') (Some ?d)"
    unfolding parsesAs_def by simp
  have r: "?rd ''auth.json'' = Inr ?auths" by simp
  have m: "matchedAuth ?auths ''reg.io/foo/bar/baz'' = Some ''Zm9v''" by code_simp
  have h: "hd (strSplit CHR ''/'' ''reg.io/foo/bar/baz'') = ''reg.io''" by code_simp
  from SelectRegistryAuth_longest_prefix [of ?ref ?rd "''auth.json''"] p r
  have g1: "GetImageName ?ref = ''reg.io/foo/bar/baz''"
    and s1: "SelectRegistryAuth ?rd ?ref ''auth.json'' =
          (if ''reg.io/foo/bar/baz'' = [] then Inl (InvalidImageReference ?ref)
           else case matchedAuth ?auths ''reg.io/foo/bar/baz'' of
                  None \<Rightarrow> Inl (AuthNotConfigured ''reg.io/foo/bar/baz'')
                | Some token \<Rightarrow>
                    if token = [] then Inl (AuthNotConfigured ''reg.io/foo/bar/baz'')
                    else Inr \<lparr>Registry = hd (strSplit CHR ''/'' ''reg.io/foo/bar/baz''), Token = token\<rparr>)"
    by blast+
  from s1 have r1: "SelectRegistryAuth ?rd ?ref ''auth.json'' = Inr \<lparr>Registry = ''reg.io'', Token = ''Zm9v''\<rparr>"
    unfolding m h by simp
  have nt: "\<not> hasTagSuffix ''reg.io/foo/qux''"
    using hasTagSuffix_colon [of "''reg.io/foo/qux''"] by auto
  have nd: "\<not> hasDigestSuffix ''reg.io/foo/qux''"
    using hasDigestSuffix_at [of "''reg.io/foo/qux''"] by auto
  have ir2: "''reg.io/foo/qux'' = imageReference ''reg.io/foo/qux'' None None"
    by (simp add: imageReference_def)
  from ir2 nt nd have p2: "parsesAs ''reg.io/foo/qux'' ''reg.io/foo/qux'' None None"
    unfolding parsesAs_def by simp
  have m2: "matchedAuth ?auths ''reg.io/foo/qux'' = Some ''cmVn''" by code_simp
  have h2: "hd (strSplit CHR ''/'' ''reg.io/foo/qux'') = ''reg.io''" by code_simp
  from SelectRegistryAuth_longest_prefix [of "''reg.io/foo/qux''" ?rd "''auth.json''"] p2 r
  have s2: "SelectRegistryAuth ?rd ''reg.io/foo/qux'' ''auth.json'' =
          (if ''reg.io/foo/qux'' = [] then Inl (InvalidImageReference ''reg.io/foo/qux'')
           else case matchedAuth ?auths ''reg.io/foo/qux'' of
                  None \<Rightarrow> Inl (AuthNotConfigured ''reg.io/foo/qux'')
                | Some token \<Rightarrow>
                    if token = [] then Inl (AuthNotConfigured ''reg.io/foo/qux'')
                    else Inr \<lparr>Registry = hd (strSplit CHR ''/'' ''reg.io/foo/qux''), Token = token\<rparr>)"
    by blast
  then have r2: "SelectRegistryAuth ?rd ''reg.io/foo/qux'' ''auth.json'' = Inr \<lparr>Registry = ''reg.io'', Token = ''cmVn''\<rparr>"
    unfolding m2 h2 by simp
  from p g1 r1 p2 r2 show ?thesis by blast
qed

text \<open>
  Claim C2, as stated, fails: the reference \<^verbatim>\<open>:latest\<close> strips to the empty path and is
  refused as invalid before any lookup, and the scope \<^verbatim>\<open>reg.io/foo\<close> matches with an
  empty auth string, which ends the search with \<^verbatim>\<open>AuthNotConfigured\<close> although the
  scope \<^verbatim>\<open>reg.io\<close> holds a token.
\<close>

theorem SelectRegistryAuth_not_configured_counterexample:
  "GetImageName '':latest'' = [] \<and>
   SelectRegistryAuth
     (\<lambda>path. Inr (map_of [(''reg.io'', ''cmVn'')]) :: unit + RegistryAuths) '':latest'' ''auth.json''
   = Inl (InvalidImageReference '':latest'') \<and>
   matchedAuth (map_of [(''reg.io/foo'', []), (''reg.io'', ''cmVn'')]) ''reg.io/foo/bar'' = Some [] \<and>
   SelectRegistryAuth
     (\<lambda>path. Inr (map_of [(''reg.io/foo'', []), (''reg.io'', ''cmVn'')]) :: unit + RegistryAuths)
     ''reg.io/foo/bar'' ''auth.json''
   = Inl (AuthNotConfigured ''reg.io/foo/bar'')"
  by code_simp

lemma SelectRegistryAuth_examples:
  "SelectRegistryAuth
     (\<lambda>path. Inr (map_of [(''https://index.docker.io/v1/'', ''aWR4'')]) :: unit + RegistryAuths)
     ''docker.io/library/x'' ''auth.json''
   = Inr \<lparr>Registry = ''docker.io'', Token = ''aWR4''\<rparr>"
  "SelectRegistryAuth
     (\<lambda>path. Inr (map_of [(''https://index.docker.io/v1/'', ''aWR4'')]) :: unit + RegistryAuths)
     ''new-reg.io/cool-app'' ''auth.json''
   = Inl (AuthNotConfigured ''new-reg.io/cool-app'')"
  "GetImageName ''localhost:5000/app:1.0'' = ''localhost:5000/app''"
  "GetImageName ''reg.io/app@sha256:0123456789abcdef0123456789abcdef0123456789abcdef0123456789ABCDEF'' = ''reg.io/app''"
  by code_simp+

section \<open>Properties of the secret directory resolution\<close>

lemma processEntries_Inr:
  assumes "processEntries fs d p entries (used, acc) = Inr (used', acc')"
  shows "acc' = acc @ map (\<lambda>entry. \<lparr>Src = Join [src d, Name entry], Id = Join [p, Name entry]\<rparr>)
                 (filter (\<lambda>entry. isRegular fs entry (src d) = Inr True) entries) \<and>
         used' = used \<union> set (map (\<lambda>entry. Join [p, Name entry])
                 (filter (\<lambda>entry. isRegular fs entry (src d) = Inr True) entries)) \<and>
         distinct (map (\<lambda>entry. Join [p, Name entry])
                 (filter (\<lambda>entry. isRegular fs entry (src d) = Inr True) entries)) \<and>
         used \<inter> set (map (\<lambda>entry. Join [p, Name entry])
                 (filter (\<lambda>entry. isRegular fs entry (src d) = Inr True) entries)) = {}"
  using assms
proof (induction entries arbitrary: used acc)
  case Nil
  then show ?case by simp
next
  case (Cons e es)
  let ?ids = "map (\<lambda>entry. Join [p, Name entry])
                 (filter (\<lambda>entry. isRegular fs entry (src d) = Inr True) es)"
  show ?case
  proof (cases "isRegular fs e (src d)")
    case (Inl err)
    with Cons.prems show ?thesis by simp
  next
    case (Inr b)
    show ?thesis
    proof (cases b)
      case False
      with Inr Cons.prems have "processEntries fs d p es (used, acc) = Inr (used', acc')" by simp
      from Cons.IH [OF this] False Inr show ?thesis by simp
    next
      case True
      let ?i = "Join [p, Name e]"
      from True Inr Cons.prems have n: "?i \<notin> used"
        by (auto simp: Let_def split: if_splits)
      with True Inr Cons.prems have
        "processEntries fs d p es (insert ?i used, acc @ [\<lparr>Src = Join [src d, Name e], Id = ?i\<rparr>]) = Inr (used', acc')"
        by (simp add: Let_def)
      from Cons.IH [OF this] have
        r: "acc' = (acc @ [\<lparr>Src = Join [src d, Name e], Id = ?i\<rparr>]) @
              map (\<lambda>entry. \<lparr>Src = Join [src d, Name entry], Id = Join [p, Name entry]\<rparr>)
                 (filter (\<lambda>entry. isRegular fs entry (src d) = Inr True) es)"
          "used' = insert ?i used \<union> set ?ids" "distinct ?ids" "insert ?i used \<inter> set ?ids = {}"
        by blast+
      from r(4) have "?i \<notin> set ?ids" and "used \<inter> set ?ids = {}" by blast+
      with r n True Inr show ?thesis by simp
    qed
  qed
qed

lemma processDirs_Inr:
  assumes "processDirs fs dirs (used, acc) = Inr secrets"
  shows "secrets = acc @ allMappings fs dirs \<and> distinct (map Id (allMappings fs dirs)) \<and>
         used \<inter> set (map Id (allMappings fs dirs)) = {}"
  using assms
proof (induction dirs arbitrary: used acc)
  case Nil
  then show ?case by (simp add: allMappings_def)
next
  case (Cons d ds)
  have a: "allMappings fs (d # ds) = mappingsOf fs d @ allMappings fs ds"
    by (simp add: allMappings_def)
  show ?case
  proof (cases "ReadDir fs (src d)")
    case (Inl err)
    with Cons.prems have "processDirs fs ds (used, acc) = Inr secrets"
      by (simp split: if_splits)
    from Cons.IH [OF this] Inl show ?thesis
      by (simp add: a mappingsOf_def acceptedEntries_def)
  next
    case (Inr entries)
    with Cons.prems obtain used' acc' where
      pe: "processEntries fs d (idPrefixOf d) entries (used, acc) = Inr (used', acc')"
      and pd: "processDirs fs ds (used', acc') = Inr secrets"
      by (auto split: sum.splits)
    have m: "mappingsOf fs d = map (\<lambda>entry. \<lparr>Src = Join [src d, Name entry], Id = Join [idPrefixOf d, Name entry]\<rparr>)
                 (filter (\<lambda>entry. isRegular fs entry (src d) = Inr True) entries)"
      by (simp add: mappingsOf_def acceptedEntries_def Inr)
    have i: "map Id (mappingsOf fs d) = map (\<lambda>entry. Join [idPrefixOf d, Name entry])
                 (filter (\<lambda>entry. isRegular fs entry (src d) = Inr True) entries)"
      by (simp add: m comp_def)
    note pe' = processEntries_Inr [OF pe, folded m i]
    from pe' have e1: "acc' = acc @ mappingsOf fs d" by (rule conjunct1)
    from pe' have e2: "used' = used \<union> set (map Id (mappingsOf fs d))" by blast
    from pe' have e3: "distinct (map Id (mappingsOf fs d))" by blast
    from pe' have e4: "used \<inter> set (map Id (mappingsOf fs d)) = {}" by blast
    note ih = Cons.IH [OF pd]
    from ih have h1: "secrets = acc' @ allMappings fs ds" by (rule conjunct1)
    from ih have h2: "distinct (map Id (allMappings fs ds))" by blast
    from ih have h3: "used' \<inter> set (map Id (allMappings fs ds)) = {}" by blast
    have "secrets = acc @ allMappings fs (d # ds)"
      unfolding a using h1 e1 by simp
    moreover have "distinct (map Id (allMappings fs (d # ds)))"
      unfolding a using h2 h3 e2 e3 by auto
    moreover have "used \<inter> set (map Id (allMappings fs (d # ds))) = {}"
      unfolding a using h3 e2 e4 by auto
    ultimately show ?thesis by blast
  qed
qed

lemma Base_nonempty: "Base path \<noteq> []"
  by (simp add: Base_def Let_def)

lemma idPrefixOf_nonempty: "idPrefixOf d \<noteq> []"
  by (simp add: idPrefixOf_def Base_nonempty)

lemma Join_two: "p \<noteq> [] \<Longrightarrow> Join [p, f] = Clean (p @ ''/'' @ f)"
  by (simp add: Join_def)

lemma IsAbs_Join: "IsAbs p \<Longrightarrow> IsAbs (Join [p, f])"
  by (auto simp: IsAbs_def Join_def Clean_def Let_def)

lemma ids_allMappings: "map Id (allMappings fs dirs) = map Clean (rawIds fs dirs)"
  by (induction dirs)
     (simp_all add: allMappings_def rawIds_def mappingsOf_def Join_two idPrefixOf_nonempty comp_def)

lemma scanSteps_append:
  "scanSteps st (xs @ ys) = (case scanSteps st xs of Inl err \<Rightarrow> Inl err | Inr st' \<Rightarrow> scanSteps st' ys)"
proof (induction st xs rule: scanSteps.induct)
  case (1 used acc)
  show ?case by simp
next
  case (2 used acc err rest)
  show ?case by simp
next
  case (3 used acc m rest)
  then show ?case by simp
qed

lemma processEntries_scan:
  "processEntries fs d (idPrefixOf d) entries (used, acc) =
   scanSteps (used, acc) (concat (map (entrySteps fs d) entries))"
proof (induction entries arbitrary: used acc)
  case Nil
  show ?case by simp
next
  case (Cons e es)
  show ?case
  proof (cases "isRegular fs e (src d)")
    case (Inl err)
    then show ?thesis by (simp add: entrySteps_def)
  next
    case (Inr b)
    with Cons show ?thesis by (cases b) (simp_all add: entrySteps_def Let_def)
  qed
qed

lemma processDirs_scan:
  "processDirs fs dirs (used, acc) =
   (case scanSteps (used, acc) (steps fs dirs) of Inl err \<Rightarrow> Inl err | Inr st \<Rightarrow> Inr (snd st))"
proof (induction dirs arbitrary: used acc)
  case Nil
  show ?case by (simp add: steps_def)
next
  case (Cons d ds)
  have s: "steps fs (d # ds) = dirSteps fs d @ steps fs ds"
    by (simp add: steps_def)
  show ?case
  proof (cases "ReadDir fs (src d)")
    case (Inl err)
    with Cons show ?thesis by (simp add: s dirSteps_def)
  next
    case (Inr entries)
    then have ds: "dirSteps fs d = concat (map (entrySteps fs d) entries)"
      by (simp add: dirSteps_def)
    show ?thesis
    proof (cases "scanSteps (used, acc) (dirSteps fs d)")
      case l: (Inl err)
      with Inr show ?thesis
        by (simp add: s scanSteps_append processEntries_scan ds [symmetric])
    next
      case r: (Inr st)
      obtain used' acc' where st: "st = (used', acc')" by (cases st)
      with Inr r Cons.IH [of used' acc'] show ?thesis
        by (simp add: s scanSteps_append processEntries_scan ds [symmetric])
    qed
  qed
qed

lemma scanSteps_successes:
  "distinct (map Id ms) \<Longrightarrow> used \<inter> set (map Id ms) = {} \<Longrightarrow>
   scanSteps (used, acc) (map Inr ms) = Inr (used \<union> set (map Id ms), acc @ ms)"
proof (induction ms arbitrary: used acc)
  case Nil
  show ?case by simp
next
  case (Cons m ms)
  from Cons.prems have "distinct (map Id ms)" and "insert (Id m) used \<inter> set (map Id ms) = {}"
    and "Id m \<notin> used"
    by auto
  with Cons.IH [of "insert (Id m) used" "acc @ [m]"] show ?case by simp
qed

lemma scanSteps_successes_cases:
  "scanSteps (used, acc) (map Inr ms) = Inr (used \<union> set (map Id ms), acc @ ms) \<or>
   (\<exists>i. scanSteps (used, acc) (map Inr ms) = Inl (DuplicateSecretID i))"
proof (induction ms arbitrary: used acc)
  case Nil
  show ?case by simp
next
  case (Cons m ms)
  show ?case
  proof (cases "Id m \<in> used")
    case True
    then show ?thesis by simp
  next
    case False
    with Cons.IH [of "insert (Id m) used" "acc @ [m]"] show ?thesis by auto
  qed
qed

lemma scanSteps_some_duplicate:
  assumes "Id m \<in> set (map Id before)"
  shows "\<exists>i. scanSteps ({}, []) (map Inr before @ Inr m # later) = Inl (DuplicateSecretID i)"
proof -
  from scanSteps_successes_cases [of "{}" "[]" before] consider
      "scanSteps ({}, []) (map Inr before) = Inr ({} \<union> set (map Id before), [] @ before)"
    | i where "scanSteps ({}, []) (map Inr before) = Inl (DuplicateSecretID i)"
    by blast
  then show ?thesis
  proof cases
    case 1
    with assms show ?thesis by (simp add: scanSteps_append)
  next
    case 2
    then show ?thesis by (simp add: scanSteps_append)
  qed
qed

lemma scanSteps_duplicate:
  assumes "distinct (map Id before)" and "Id m \<in> set (map Id before)"
  shows "scanSteps ({}, []) (map Inr before @ Inr m # later) = Inl (DuplicateSecretID (Id m))"
proof -
  from assms(1) have "scanSteps ({}, []) (map Inr before) = Inr ({} \<union> set (map Id before), [] @ before)"
    by (intro scanSteps_successes) simp_all
  with assms(2) show ?thesis by (simp add: scanSteps_append)
qed

lemma scanSteps_duplicate_only:
  "Inl (DuplicateSecretID i) \<notin> set ss \<Longrightarrow>
   scanSteps (used, acc) ss = Inl (DuplicateSecretID i) \<Longrightarrow>
   \<exists>before m later. ss = map Inr before @ Inr m # later \<and> Id m = i \<and>
     (i \<in> used \<or> i \<in> set (map Id before))"
proof (induction ss arbitrary: used acc)
  case Nil
  then show ?case by simp
next
  case (Cons s ss)
  show ?case
  proof (cases s)
    case (Inl err)
    with Cons.prems show ?thesis by simp
  next
    case (Inr m)
    show ?thesis
    proof (cases "Id m \<in> used")
      case True
      with Inr Cons.prems have "Id m = i" by simp
      with True Inr have "s # ss = map Inr [] @ Inr m # ss \<and> Id m = i \<and> (i \<in> used \<or> i \<in> set (map Id []))"
        by simp
      then show ?thesis by blast
    next
      case False
      with Inr Cons.prems have "scanSteps (insert (Id m) used, acc @ [m]) ss = Inl (DuplicateSecretID i)"
        and "Inl (DuplicateSecretID i) \<notin> set ss"
        by simp_all
      from Cons.IH [OF this(2,1)] obtain before m' later where
        e: "ss = map Inr before @ Inr m' # later" and i: "Id m' = i"
        and u: "i \<in> insert (Id m) used \<or> i \<in> set (map Id before)"
        by blast
      from e Inr have "s # ss = map Inr (m # before) @ Inr m' # later" by simp
      moreover from u have "i \<in> used \<or> i \<in> set (map Id (m # before))" by auto
      ultimately show ?thesis using i by blast
    qed
  qed
qed

lemma steps_no_duplicate_error: "Inl (DuplicateSecretID i) \<notin> set (steps fs dirs)"
  by (auto simp: steps_def dirSteps_def entrySteps_def isRegular_def Let_def
      split: sum.splits if_splits)

lemma processSecretDirs_scan:
  "processSecretDirs fs dirs =
   (case scanSteps ({}, []) (steps fs dirs) of Inl err \<Rightarrow> Inl err | Inr st \<Rightarrow> Inr (snd st))"
  by (simp add: processSecretDirs_def processDirs_scan)

text \<open>
  Claim C3, as the code has it.  A successful resolution returns mappings with pairwise
  distinct ids, and if two accepted entries, of the same or of different specifications,
  have the same id \<^verbatim>\<open>idPrefix + "/" + filename\<close>, the resolution fails and returns no
  mapping.  When an entry repeats the id of an earlier one and no directory read or stat
  failure comes before it, the failure is \<^verbatim>\<open>DuplicateSecretID\<close>, naming that id when it
  is the first repetition, whatever comes after it.  \<^verbatim>\<open>DuplicateSecretID\<close> always names an
  id that an entry repeats with no failure before it.
\<close>

theorem processSecretDirs_duplicate_ids:
  "(processSecretDirs fs dirs = Inr secrets \<longrightarrow> distinct (map Id secrets)) \<and>
   (\<not> distinct (rawIds fs dirs) \<longrightarrow> (\<exists>e. processSecretDirs fs dirs = Inl e)) \<and>
   (\<forall>before m later.
      steps fs dirs = map Inr before @ Inr m # later \<and> Id m \<in> set (map Id before) \<longrightarrow>
      (\<exists>i. processSecretDirs fs dirs = Inl (DuplicateSecretID i)) \<and>
      (distinct (map Id before) \<longrightarrow> processSecretDirs fs dirs = Inl (DuplicateSecretID (Id m)))) \<and>
   (\<forall>i. processSecretDirs fs dirs = Inl (DuplicateSecretID i) \<longrightarrow>
      (\<exists>before m later.
         steps fs dirs = map Inr before @ Inr m # later \<and> Id m = i \<and> i \<in> set (map Id before)))"
proof (intro conjI impI allI)
  assume "processSecretDirs fs dirs = Inr secrets"
  then have "processDirs fs dirs ({}, []) = Inr secrets"
    by (simp add: processSecretDirs_def)
  from processDirs_Inr [OF this] show "distinct (map Id secrets)" by simp
next
  assume nd: "\<not> distinct (rawIds fs dirs)"
  then have nd': "\<not> distinct (map Id (allMappings fs dirs))"
    by (simp add: ids_allMappings distinct_map)
  show "\<exists>e. processSecretDirs fs dirs = Inl e"
  proof (cases "processSecretDirs fs dirs")
    case (Inl e)
    then show ?thesis by blast
  next
    case (Inr secrets')
    then have "processDirs fs dirs ({}, []) = Inr secrets'"
      by (simp add: processSecretDirs_def)
    from processDirs_Inr [OF this] nd' show ?thesis by simp
  qed
next
  fix before m later
  assume a: "steps fs dirs = map Inr before @ Inr m # later \<and> Id m \<in> set (map Id before)"
  then obtain i where "scanSteps ({}, []) (steps fs dirs) = Inl (DuplicateSecretID i)"
    using scanSteps_some_duplicate [of m before later] by auto
  then show "\<exists>i. processSecretDirs fs dirs = Inl (DuplicateSecretID i)"
    by (simp add: processSecretDirs_scan)
next
  fix before m later
  assume a: "steps fs dirs = map Inr before @ Inr m # later \<and> Id m \<in> set (map Id before)"
    and d: "distinct (map Id before)"
  then have "scanSteps ({}, []) (steps fs dirs) = Inl (DuplicateSecretID (Id m))"
    by (simp add: scanSteps_duplicate)
  then show "processSecretDirs fs dirs = Inl (DuplicateSecretID (Id m))"
    by (simp add: processSecretDirs_scan)
next
  fix i
  assume "processSecretDirs fs dirs = Inl (DuplicateSecretID i)"
  then have "scanSteps ({}, []) (steps fs dirs) = Inl (DuplicateSecretID i)"
    by (simp add: processSecretDirs_scan split: sum.splits)
  from scanSteps_duplicate_only [OF steps_no_duplicate_error this]
  show "\<exists>before m later.
         steps fs dirs = map Inr before @ Inr m # later \<and> Id m = i \<and> i \<in> set (map Id before)"
    by simp
qed

theorem processSecretDirs_duplicate_ids_witness:
  "processSecretDirs demoFS [\<lparr>src = ''/run/a/secret1'', name = [], optional = False\<rparr>,
                             \<lparr>src = ''/run/b/secret1'', name = [], optional = False\<rparr>,
                             \<lparr>src = ''/run/locked'', name = [], optional = False\<rparr>]
     = Inl (DuplicateSecretID ''secret1/token'') \<and>
   \<not> distinct (rawIds demoFS [\<lparr>src = ''/run/a/secret1'', name = [], optional = False\<rparr>,
                                 \<lparr>src = ''/run/b/secret1'', name = [], optional = False\<rparr>,
                                 \<lparr>src = ''/run/locked'', name = [], optional = False\<rparr>]) \<and>
   processSecretDirs demoFS [\<lparr>src = ''/run/a/secret1'', name = [], optional = False\<rparr>,
                             \<lparr>src = ''/run/b/secret1'', name = ''b'', optional = False\<rparr>]
     = Inr [\<lparr>Src = ''/run/a/secret1/token'', Id = ''secret1/token''\<rparr>,
            \<lparr>Src = ''/run/b/secret1/password'', Id = ''b/password''\<rparr>,
            \<lparr>Src = ''/run/b/secret1/token'', Id = ''b/token''\<rparr>] \<and>
   distinct (map Id [\<lparr>Src = ''/run/a/secret1/token'', Id = ''secret1/token''\<rparr>,
            \<lparr>Src = ''/run/b/secret1/password'', Id = ''b/password''\<rparr>,
            \<lparr>Src = ''/run/b/secret1/token'', Id = ''b/token''\<rparr>])"
proof -
  let ?a = "\<lparr>src = ''/run/a/secret1'', name = [], optional = False\<rparr>"
  let ?b = "\<lparr>src = ''/run/b/secret1'', name = [], optional = False\<rparr>"
  let ?b' = "\<lparr>src = ''/run/b/secret1'', name = ''b'', optional = False\<rparr>"
  let ?l = "\<lparr>src = ''/run/locked'', name = [], optional = False\<rparr>"
  let ?before = "[\<lparr>Src = ''/run/a/secret1/token'', Id = ''secret1/token''\<rparr>,
                  \<lparr>Src = ''/run/b/secret1/password'', Id = ''secret1/password''\<rparr>]"
  let ?m = "\<lparr>Src = ''/run/b/secret1/token'', Id = ''secret1/token''\<rparr>"
  let ?later = "[Inl (SecretDirUnreadable ''/run/locked'' OtherIOError)]"
  let ?out = "[\<lparr>Src = ''/run/a/secret1/token'', Id = ''secret1/token''\<rparr>,
            \<lparr>Src = ''/run/b/secret1/password'', Id = ''b/password''\<rparr>,
            \<lparr>Src = ''/run/b/secret1/token'', Id = ''b/token''\<rparr>]"
  have st: "steps demoFS [?a, ?b, ?l] = map Inr ?before @ Inr ?m # ?later"
    by code_simp
  have di: "distinct (map Id ?before)" by simp
  have me: "Id ?m \<in> set (map Id ?before)" by simp
  from processSecretDirs_duplicate_ids [of demoFS "[?a, ?b, ?l]"] st di me
  have "processSecretDirs demoFS [?a, ?b, ?l] = Inl (DuplicateSecretID (Id ?m))"
    by blast
  then have r1: "processSecretDirs demoFS [?a, ?b, ?l] = Inl (DuplicateSecretID ''secret1/token'')"
    by simp
  have "rawIds demoFS [?a, ?b, ?l] = [''secret1/token'', ''secret1/password'', ''secret1/token'']"
    by code_simp
  then have nd: "\<not> distinct (rawIds demoFS [?a, ?b, ?l])"
    by simp
  have ok: "processSecretDirs demoFS [?a, ?b'] = Inr ?out"
    by code_simp
  from processSecretDirs_duplicate_ids [of demoFS "[?a, ?b']" ?out] ok
  have "distinct (map Id ?out)"
    by blast
  with r1 nd ok show ?thesis by blast
qed

text \<open>
  Claim C3, as stated, fails: when a directory that cannot be read comes before the
  entries with colliding ids, the resolution stops there with \<^verbatim>\<open>SecretDirUnreadable\<close>.
\<close>

theorem processSecretDirs_read_failure_first_counterexample:
  "\<not> distinct (rawIds demoFS [\<lparr>src = ''/run/locked'', name = [], optional = False\<rparr>,
                                 \<lparr>src = ''/run/a/secret1'', name = [], optional = False\<rparr>,
                                 \<lparr>src = ''/run/b/secret1'', name = [], optional = False\<rparr>]) \<and>
   processSecretDirs demoFS [\<lparr>src = ''/run/locked'', name = [], optional = False\<rparr>,
                             \<lparr>src = ''/run/a/secret1'', name = [], optional = False\<rparr>,
                             \<lparr>src = ''/run/b/secret1'', name = [], optional = False\<rparr>]
     = Inl (SecretDirUnreadable ''/run/locked'' OtherIOError)"
proof -
  let ?dirs = "[\<lparr>src = ''/run/locked'', name = [], optional = False\<rparr>,
                \<lparr>src = ''/run/a/secret1'', name = [], optional = False\<rparr>,
                \<lparr>src = ''/run/b/secret1'', name = [], optional = False\<rparr>]"
  have "rawIds demoFS ?dirs = [''secret1/token'', ''secret1/password'', ''secret1/token'']"
    by code_simp
  then have "\<not> distinct (rawIds demoFS ?dirs)" by simp
  moreover have "processSecretDirs demoFS ?dirs = Inl (SecretDirUnreadable ''/run/locked'' OtherIOError)"
    by code_simp
  ultimately show ?thesis by blast
qed



text \<open>
  Claim C8, as the code has it.  A successful resolution returns, for each specification
  in the order given and for each accepted entry in listing order, the mapping with
  \<^verbatim>\<open>src = filepath.Join(src, filename)\<close> and
  \<^verbatim>\<open>id = filepath.Join(idPrefix, filename)\<close>, the cleaned form of
  \<^verbatim>\<open>idPrefix/filename\<close>, where \<^verbatim>\<open>idPrefix\<close> is the alias if set and the base name of
  \<^verbatim>\<open>src\<close> otherwise.  The returned paths are absolute when the source directories of
  the specifications are.
\<close>

theorem processSecretDirs_output:
  assumes "processSecretDirs fs dirs = Inr secrets"
  shows "secrets =
           concat (map (\<lambda>d. map (\<lambda>entry. \<lparr>Src = Join [src d, Name entry],
                                             Id = Clean (idPrefixOf d @ ''/'' @ Name entry)\<rparr>)
                                 (acceptedEntries fs d)) dirs) \<and>
         (list_all (\<lambda>d. IsAbs (src d)) dirs \<longrightarrow> list_all (\<lambda>s. IsAbs (Src s)) secrets)"
proof -
  from assms have "processDirs fs dirs ({}, []) = Inr secrets"
    by (simp add: processSecretDirs_def)
  from processDirs_Inr [OF this] have s: "secrets = allMappings fs dirs"
    by simp
  have "allMappings fs dirs =
           concat (map (\<lambda>d. map (\<lambda>entry. \<lparr>Src = Join [src d, Name entry],
                                             Id = Clean (idPrefixOf d @ ''/'' @ Name entry)\<rparr>)
                                 (acceptedEntries fs d)) dirs)"
  proof -
    have "mappingsOf fs = (\<lambda>d. map (\<lambda>entry. \<lparr>Src = Join [src d, Name entry],
                                             Id = Clean (idPrefixOf d @ ''/'' @ Name entry)\<rparr>)
                                 (acceptedEntries fs d))"
      by (rule ext) (simp add: mappingsOf_def Join_two idPrefixOf_nonempty)
    then show ?thesis by (simp add: allMappings_def)
  qed
  moreover have "list_all (\<lambda>d. IsAbs (src d)) dirs \<Longrightarrow> list_all (\<lambda>s. IsAbs (Src s)) (allMappings fs dirs)"
    by (induction dirs) (auto simp: allMappings_def mappingsOf_def list_all_iff IsAbs_Join)
  ultimately show ?thesis using s by simp
qed

theorem processSecretDirs_output_witness:
  "processSecretDirs demoFS [\<lparr>src = ''/run/a/secret1'', name = [], optional = False\<rparr>,
                             \<lparr>src = ''/run/c'', name = [], optional = True\<rparr>,
                             \<lparr>src = ''/run/b/secret1'', name = ''b'', optional = False\<rparr>]
     = Inr [\<lparr>Src = ''/run/a/secret1/token'', Id = ''secret1/token''\<rparr>,
            \<lparr>Src = ''/run/b/secret1/password'', Id = ''b/password''\<rparr>,
            \<lparr>Src = ''/run/b/secret1/token'', Id = ''b/token''\<rparr>] \<and>
   list_all (\<lambda>s. IsAbs (Src s))
         [\<lparr>Src = ''/run/a/secret1/token'', Id = ''secret1/token''\<rparr>,
            \<lparr>Src = ''/run/b/secret1/password'', Id = ''b/password''\<rparr>,
            \<lparr>Src = ''/run/b/secret1/token'', Id = ''b/token''\<rparr>]"
proof -
  let ?dirs = "[\<lparr>src = ''/run/a/secret1'', name = [], optional = False\<rparr>,
                \<lparr>src = ''/run/c'', name = [], optional = True\<rparr>,
                \<lparr>src = ''/run/b/secret1'', name = ''b'', optional = False\<rparr>]"
  let ?out = "[\<lparr>Src = ''/run/a/secret1/token'', Id = ''secret1/token''\<rparr>,
            \<lparr>Src = ''/run/b/secret1/password'', Id = ''b/password''\<rparr>,
            \<lparr>Src = ''/run/b/secret1/token'', Id = ''b/token''\<rparr>]"
  have ok: "processSecretDirs demoFS ?dirs = Inr ?out"
    by code_simp
  have ab: "list_all (\<lambda>d. IsAbs (src d)) ?dirs"
    by (simp add: IsAbs_def)
  from processSecretDirs_output [OF ok] ab have "list_all (\<lambda>s. IsAbs (Src s)) ?out"
    by blast
  with ok show ?thesis by blast
qed

text \<open>
  Claim C8, as stated, fails: for the relative source directory \<^verbatim>\<open>secrets\<close> the returned
  path is the relative \<^verbatim>\<open>secrets/token\<close>, not \<^verbatim>\<open>/work/secrets/token\<close>, and for the alias
  \<^verbatim>\<open>certs/\<close> the id is \<^verbatim>\<open>certs/token\<close>, not \<^verbatim>\<open>certs//token\<close>.
\<close>

theorem processSecretDirs_relative_src_counterexample:
  "processSecretDirs demoFS [\<lparr>src = ''secrets'', name = ''certs/'', optional = False\<rparr>]
     = Inr [\<lparr>Src = ''secrets/token'', Id = ''certs/token''\<rparr>] \<and>
   Getwd demoFS = Inr ''/work'' \<and>
   \<not> IsAbs ''secrets/token'' \<and>
   ''secrets/token'' \<noteq> ''/work/secrets/token'' \<and>
   ''certs/token'' \<noteq> ''certs/'' @ ''/'' @ ''token''"
  by code_simp

section \<open>Properties of the build-file discovery\<close>

lemma takeWhile_dropWhile_slash:
  "s = takeWhile (\<lambda>c. c \<noteq> CHR ''/'') s @ dropWhile (\<lambda>c. c \<noteq> CHR ''/'') s"
  by simp

lemma drop_Suc_takeWhile:
  "drop (Suc (length (takeWhile P s))) s = tl (dropWhile P s)"
  by (induction s) auto

lemma split_elem:
  obtains "s = takeWhile (\<lambda>c. c \<noteq> CHR ''/'') s" and "drop (Suc (length (takeWhile (\<lambda>c. c \<noteq> CHR ''/'') s))) s = []"
  | r where "s = takeWhile (\<lambda>c. c \<noteq> CHR ''/'') s @ CHR ''/'' # r"
      and "drop (Suc (length (takeWhile (\<lambda>c. c \<noteq> CHR ''/'') s))) s = r"
proof (cases "dropWhile (\<lambda>c. c \<noteq> CHR ''/'') s")
  case Nil
  then have "s = takeWhile (\<lambda>c. c \<noteq> CHR ''/'') s"
    by (metis append_Nil2 takeWhile_dropWhile_id)
  moreover have "drop (Suc (length (takeWhile (\<lambda>c. c \<noteq> CHR ''/'') s))) s = []"
    by (simp only: drop_Suc_takeWhile Nil list.sel)
  ultimately show ?thesis using that(1) by blast
next
  case (Cons x r)
  then have "x = CHR ''/''"
    by (metis (mono_tags, lifting) hd_dropWhile list.distinct(1) list.sel(1))
  with Cons have "s = takeWhile (\<lambda>c. c \<noteq> CHR ''/'') s @ CHR ''/'' # r"
    by (metis takeWhile_dropWhile_id)
  moreover have "drop (Suc (length (takeWhile (\<lambda>c. c \<noteq> CHR ''/'') s))) s = r"
    by (simp only: drop_Suc_takeWhile Cons list.sel)
  ultimately show ?thesis using that(2) by blast
qed

lemma relInv_lift:
  assumes "relInv b t rb rt"
  shows "relInv (e @ CHR ''/'' # b) (e @ CHR ''/'' # t) rb rt"
proof -
  from assms consider
      c where "b = c @ rb" "t = c @ rt" "c = [] \<or> last c = CHR ''/''"
    | "rb = []" "t = b @ CHR ''/'' # rt"
    | "rt = []" "b = t @ CHR ''/'' # rb"
    | "rb = []" "rt = []" "b = t"
    unfolding relInv_def by blast
  then show ?thesis
  proof cases
    case 1
    then have "e @ CHR ''/'' # b = (e @ CHR ''/'' # c) @ rb \<and> e @ CHR ''/'' # t = (e @ CHR ''/'' # c) @ rt \<and>
        last (e @ CHR ''/'' # c) = CHR ''/''"
      by auto
    then show ?thesis unfolding relInv_def by blast
  next
    case 2
    then show ?thesis unfolding relInv_def by simp
  next
    case 3
    then show ?thesis unfolding relInv_def by simp
  next
    case 4
    then show ?thesis unfolding relInv_def by simp
  qed
qed

lemma relLoop_inv:
  "relLoop base targ = (restBase, belem, restTarg) \<Longrightarrow> relInv base targ restBase restTarg"
proof (induction base targ arbitrary: restBase belem restTarg rule: relLoop.induct)
  case (1 base targ)
  let ?be = "takeWhile (\<lambda>c. c \<noteq> CHR ''/'') base"
  let ?te = "takeWhile (\<lambda>c. c \<noteq> CHR ''/'') targ"
  show ?case
  proof (cases "base = [] \<or> targ = []")
    case True
    with 1(2) have "restBase = base \<and> restTarg = targ"
      by (simp add: relLoop.simps)
    then show ?thesis unfolding relInv_def by simp
  next
    case False
    show ?thesis
    proof (cases "?te \<noteq> ?be")
      case True
      with False 1(2) have "restBase = base \<and> restTarg = targ"
        by (simp add: relLoop.simps Let_def)
      then show ?thesis unfolding relInv_def by simp
    next
      case eq: False
      let ?b' = "drop (Suc (length ?be)) base"
      let ?t' = "drop (Suc (length ?te)) targ"
      from False eq 1(2) have r: "relLoop ?b' ?t' = (restBase, belem, restTarg)"
        by (subst (asm) relLoop.simps) (simp add: Let_def)
      from 1(1) [OF False refl refl _ r] eq have ih: "relInv ?b' ?t' restBase restTarg"
        by simp
      show ?thesis
      proof (rule split_elem [of base]; rule split_elem [of targ])
        assume b: "base = ?be" "?b' = []" and t: "targ = ?te" "?t' = []"
        from r b t have "restBase = [] \<and> restTarg = []" by (simp add: relLoop.simps)
        moreover from b t eq have "base = targ" by simp
        ultimately show ?thesis unfolding relInv_def by simp
      next
        fix tr
        assume b: "base = ?be" "?b' = []" and t: "targ = ?te @ CHR ''/'' # tr" "?t' = tr"
        from r b t have "restBase = [] \<and> restTarg = tr" by (simp add: relLoop.simps)
        moreover from b t eq have "targ = base @ CHR ''/'' # tr" by simp
        ultimately show ?thesis unfolding relInv_def by simp
      next
        fix br
        assume b: "base = ?be @ CHR ''/'' # br" "?b' = br" and t: "targ = ?te" "?t' = []"
        from r b t have "restBase = br \<and> restTarg = []" by (simp add: relLoop.simps)
        moreover from b t eq have "base = targ @ CHR ''/'' # br" by simp
        ultimately show ?thesis unfolding relInv_def by simp
      next
        fix br tr
        assume b: "base = ?be @ CHR ''/'' # br" "?b' = br" and t: "targ = ?te @ CHR ''/'' # tr" "?t' = tr"
        from ih b(2) t(2) have "relInv br tr restBase restTarg" by simp
        from relInv_lift [OF this, of ?be] b(1) t(1) eq show ?thesis by simp
      qed
    qed
  qed
qed

lemma cleanStep_good:
  "goodElems kept \<Longrightarrow> CHR ''/'' \<notin> set elem \<Longrightarrow> goodElems (cleanStep rooted elem kept)"
  by (auto simp: goodElems_def cleanStep_def split: list.splits)

lemma fold_cleanStep_good:
  "goodElems kept \<Longrightarrow> \<forall>e \<in> set elems. CHR ''/'' \<notin> set e \<Longrightarrow>
   goodElems (fold (cleanStep rooted) elems kept)"
  by (induction elems arbitrary: kept) (simp_all add: cleanStep_good)

lemma last_strJoin:
  "xs \<noteq> [] \<Longrightarrow> last xs \<noteq> [] \<Longrightarrow> last (strJoin sep xs) = last (last xs)"
proof (induction xs rule: rev_induct)
  case Nil
  then show ?case by simp
next
  case (snoc w ys)
  then show ?case by (cases "ys = []") (simp_all add: strJoin_snoc)
qed

lemma strJoin_nonempty: "xs \<noteq> [] \<Longrightarrow> last xs \<noteq> [] \<Longrightarrow> strJoin sep xs \<noteq> []"
proof (induction xs rule: rev_induct)
  case Nil
  then show ?case by simp
next
  case (snoc w ys)
  then show ?case by (cases "ys = []") (simp_all add: strJoin_snoc)
qed

lemma Clean_cases:
  obtains "Clean s = ''.''" | "Clean s = ''/''"
  | body where "Clean s = body \<or> Clean s = CHR ''/'' # body" "body \<noteq> []" "last body \<noteq> CHR ''/''"
proof (cases "s = []")
  case True
  then show ?thesis using that(1) by (simp add: Clean_def)
next
  case False
  define rooted where "rooted = (hd s = CHR ''/'')"
  define kept where "kept = fold (cleanStep rooted) (strSplit CHR ''/'' s) []"
  have g: "goodElems kept"
    unfolding kept_def by (rule fold_cleanStep_good) (auto simp: goodElems_def dest: strSplit_no_sep)
  have c: "Clean s = (if rooted then CHR ''/'' # strJoin ''/'' (rev kept)
        else if kept = [] then ''.'' else strJoin ''/'' (rev kept))"
    using False by (simp add: Clean_def Let_def rooted_def kept_def)
  show ?thesis
  proof (cases "kept = []")
    case True
    with c that(1,2) show ?thesis by (cases rooted) simp_all
  next
    case ne: False
    then have "last (rev kept) \<in> set kept"
      by (cases kept) (simp_all add: last_rev)
    with g have le: "last (rev kept) \<noteq> []" and ns: "CHR ''/'' \<notin> set (last (rev kept))"
      by (auto simp: goodElems_def)
    from ne le have "last (strJoin ''/'' (rev kept)) = last (last (rev kept))"
      by (simp add: last_strJoin)
    moreover from le ns have "last (last (rev kept)) \<noteq> CHR ''/''"
      by (metis last_in_set)
    ultimately have lj: "last (strJoin ''/'' (rev kept)) \<noteq> CHR ''/''" by simp
    from ne le have nj: "strJoin ''/'' (rev kept) \<noteq> []"
      by (simp add: strJoin_nonempty)
    from c ne have "Clean s = strJoin ''/'' (rev kept) \<or> Clean s = CHR ''/'' # strJoin ''/'' (rev kept)"
      by (cases rooted) simp_all
    with nj lj show ?thesis using that(3) by blast
  qed
qed

lemma Clean_nonempty: "Clean s \<noteq> []"
  by (rule Clean_cases [of s]) auto

lemma Clean_trailing_slash:
  assumes "last (Clean s) = CHR ''/''"
  shows "Clean s = ''/''"
  using assms by (rule_tac s = s in Clean_cases) auto

lemma isRelativeTo_sound:
  assumes cp: "Clean p = p" and cb: "Clean b = b" and ap: "IsAbs p" and ab: "IsAbs b"
    and rel: "isRelativeTo p b"
  shows "isContained p b"
proof (cases "p = b")
  case True
  then show ?thesis by (simp add: isContained_def)
next
  case False
  obtain rb be rt where l: "relLoop b p = (rb, be, rt)"
    by (cases "relLoop b p") auto
  from ab have bd: "b \<noteq> ''.''" by (auto simp: IsAbs_def)
  from rel False cp cb ap ab l bd have rbe: "rb = []"
    by (auto simp: isRelativeTo_def Rel_def Let_def IsAbs_def split: if_splits)
  from relLoop_inv [OF l] rbe consider
      c where "b = c" "p = c @ rt" "c = [] \<or> last c = CHR ''/''"
    | "p = b @ CHR ''/'' # rt"
    | "rt = []" "b = p @ [CHR ''/'']"
    | "b = p"
    unfolding relInv_def by auto
  then show ?thesis
  proof cases
    case 1
    with ab have "last b = CHR ''/''" by (auto simp: IsAbs_def)
    with cb have "b = ''/''" using Clean_trailing_slash [of b] by simp
    with ap show ?thesis by (cases p) (auto simp: isContained_def IsAbs_def)
  next
    case 2
    then show ?thesis by (simp add: isContained_def)
  next
    case 3
    then have "last b = CHR ''/''" by simp
    with cb have "b = ''/''" using Clean_trailing_slash [of b] by simp
    with 3 ap show ?thesis by (simp add: IsAbs_def)
  next
    case 4
    with False show ?thesis by simp
  qed
qed

lemma hd_strJoin: "e \<noteq> [] \<Longrightarrow> hd (strJoin sep (e # es)) = hd e"
  by (cases es) simp_all

lemma IsAbs_Clean: "IsAbs p \<Longrightarrow> IsAbs (Clean p)"
  by (auto simp: IsAbs_def Clean_def Let_def)

lemma IsAbs_Join_Cons: "IsAbs e \<Longrightarrow> IsAbs (Join (e # es))"
proof -
  assume a: "IsAbs e"
  then have "e \<noteq> []" by (simp add: IsAbs_def)
  moreover from this a have "IsAbs (strJoin ''/'' (e # es))"
    by (cases es) (auto simp: IsAbs_def)
  ultimately show ?thesis by (simp add: Join_def IsAbs_Clean)
qed

lemma IsAbs_Abs:
  assumes "resolvesCanonically fs" and "Abs fs path = Inr a"
  shows "IsAbs a"
proof (cases "IsAbs path")
  case True
  with assms(2) show ?thesis by (auto simp: Abs_def IsAbs_Clean)
next
  case False
  with assms(2) obtain wd where w: "Getwd fs = Inr wd" and a: "a = Join [wd, path]"
    by (auto simp: Abs_def split: sum.splits)
  from assms(1) w have "IsAbs wd" by (simp add: resolvesCanonically_def)
  with a show ?thesis by (simp add: IsAbs_Join_Cons)
qed

lemma searchPaths_firstHit:
  "searchPaths fs b file paths = firstHit fs b (map (\<lambda>path. (file, path)) paths)"
proof (induction paths)
  case Nil
  show ?case by simp
next
  case (Cons p ps)
  show ?case
  proof (cases "EvalSymlinks fs p")
    case (Inl err)
    with Cons show ?thesis by (cases err) simp_all
  next
    case (Inr q)
    then show ?thesis by simp
  qed
qed

lemma firstHit_Inr:
  "firstHit fs b cs = Inr p \<Longrightarrow>
     (p = [] \<and> (\<forall>c \<in> set cs. EvalSymlinks fs (snd c) = Inl NotExist)) \<or>
     (\<exists>c \<in> set cs. EvalSymlinks fs (snd c) = Inr p \<and> isRelativeTo p b)"
proof (induction cs)
  case Nil
  then show ?case by simp
next
  case (Cons c cs)
  obtain fname pth where c: "c = (fname, pth)" by (cases c)
  show ?case
  proof (cases "EvalSymlinks fs pth")
    case (Inl err)
    with Cons c show ?thesis by (cases err) auto
  next
    case (Inr q)
    with Cons.prems c show ?thesis by (auto split: if_splits)
  qed
qed

lemma firstHit_append:
  assumes "\<forall>path. EvalSymlinks fs path \<noteq> Inr []"
  shows "firstHit fs b (xs @ ys) =
     (case firstHit fs b xs of
        Inl err \<Rightarrow> Inl err
      | Inr p \<Rightarrow> if p \<noteq> [] then Inr p else firstHit fs b ys)"
proof (induction xs)
  case Nil
  show ?case by simp
next
  case (Cons c xs)
  obtain fname pth where c: "c = (fname, pth)" by (cases c)
  show ?case
  proof (cases "EvalSymlinks fs pth")
    case (Inl err)
    with Cons c show ?thesis by (cases err) simp_all
  next
    case (Inr q)
    with assms have "q \<noteq> []" by metis
    with Inr c show ?thesis by simp
  qed
qed

lemma resolved_nonempty:
  "resolvesCanonically fs \<Longrightarrow> EvalSymlinks fs path \<noteq> Inr []"
  using Clean_nonempty [of "[]"] by (auto simp: resolvesCanonically_def)

lemma searchNames_firstHit:
  assumes "resolvesCanonically fs"
  shows "searchNames fs b ctx names =
         firstHit fs b (concat (map (\<lambda>file. [(file, Join [b, ctx, file]), (file, Join [b, file])]) names))"
proof (induction names)
  case Nil
  show ?case by simp
next
  case (Cons n ns)
  have ne: "\<forall>path. EvalSymlinks fs path \<noteq> Inr []"
    using assms by (simp add: resolved_nonempty)
  have s: "search fs b ctx n = firstHit fs b [(n, Join [b, ctx, n]), (n, Join [b, n])]"
    by (simp add: search_def searchPaths_firstHit)
  have "firstHit fs b (concat (map (\<lambda>file. [(file, Join [b, ctx, file]), (file, Join [b, file])]) (n # ns)))
      = firstHit fs b ([(n, Join [b, ctx, n]), (n, Join [b, n])] @
          concat (map (\<lambda>file. [(file, Join [b, ctx, file]), (file, Join [b, file])]) ns))"
    by simp
  also have "\<dots> = (case search fs b ctx n of
        Inl err \<Rightarrow> Inl err
      | Inr p \<Rightarrow> if p \<noteq> [] then Inr p else searchNames fs b ctx ns)"
    unfolding firstHit_append [OF ne] s Cons.IH ..
  finally show ?case by simp
qed

lemma SearchDockerfile_firstHit:
  assumes "resolvesCanonically fs" and "SourceDir opts \<noteq> []"
    and "Abs fs (SourceDir opts) = Inr a" and "EvalSymlinks fs a = Inr b"
  shows "SearchDockerfile fs opts =
         firstHit fs b (candidates b (if ContextDir opts = [] then ''.'' else ContextDir opts) (Dockerfile opts))"
proof (cases "Dockerfile opts = []")
  case True
  with assms show ?thesis
    by (simp add: SearchDockerfile_def candidates_def searchNames_firstHit [OF assms(1)] Let_def
        del: searchNames.simps firstHit.simps)
next
  case False
  with assms show ?thesis
    by (simp add: SearchDockerfile_def candidates_def search_def searchPaths_firstHit Let_def
        del: firstHit.simps)
qed

lemma firstHit_skip:
  "i \<le> length cs \<Longrightarrow> \<forall>j<i. EvalSymlinks fs (snd (cs ! j)) = Inl NotExist \<Longrightarrow>
   firstHit fs b cs = firstHit fs b (drop i cs)"
proof (induction cs arbitrary: i)
  case Nil
  then show ?case by simp
next
  case (Cons c cs)
  show ?case
  proof (cases i)
    case 0
    then show ?thesis by simp
  next
    case (Suc k)
    obtain fname pth where c: "c = (fname, pth)" by (cases c)
    from Cons.prems(2) Suc c have h: "EvalSymlinks fs pth = Inl NotExist" by auto
    from Cons.prems Suc have "k \<le> length cs" and "\<forall>j<k. EvalSymlinks fs (snd (cs ! j)) = Inl NotExist"
      by auto
    from Cons.IH [OF this] h c Suc show ?thesis by simp
  qed
qed

lemma firstHit_at:
  assumes "i < length cs" and "\<forall>j<i. EvalSymlinks fs (snd (cs ! j)) = Inl NotExist"
  shows "firstHit fs b cs =
     (case EvalSymlinks fs (snd (cs ! i)) of
        Inl NotExist \<Rightarrow> firstHit fs b (drop (Suc i) cs)
      | Inl OtherIOError \<Rightarrow> Inl (DockerfileSymlinkFailed (snd (cs ! i)) OtherIOError)
      | Inr resolved \<Rightarrow>
          if isRelativeTo resolved b then Inr resolved
          else Inl (EscapeDetected (fst (cs ! i)) b))"
proof -
  from assms have "firstHit fs b cs = firstHit fs b (drop i cs)"
    by (simp add: firstHit_skip)
  moreover obtain fname pth where c: "cs ! i = (fname, pth)" by (cases "cs ! i")
  moreover from assms(1) c have "drop i cs = (fname, pth) # drop (Suc i) cs"
    using Cons_nth_drop_Suc [of i cs] by simp
  ultimately show ?thesis by (simp split: sum.splits ioError.splits)
qed

lemma candidates_abs: "IsAbs b \<Longrightarrow> c \<in> set (candidates b ctx file) \<Longrightarrow> IsAbs (snd c)"
  by (auto simp: candidates_def IsAbs_Join_Cons split: if_splits)

lemma treeFS_canonical: "resolvesCanonically treeFS"
proof -
  have c: "Clean ''/tmp/s'' = ''/tmp/s''"
    "Clean ''/tmp/outside/Dockerfile'' = ''/tmp/outside/Dockerfile''"
    "Clean ''/tmp/s/app/Containerfile'' = ''/tmp/s/app/Containerfile''"
    "Clean ''/tmp/s/app/Dockerfile'' = ''/tmp/s/app/Dockerfile''"
    "Clean ''/tmp/s/Dockerfile'' = ''/tmp/s/Dockerfile''"
    "Clean ''/tmp/s/vol/..data/Dockerfile'' = ''/tmp/s/vol/..data/Dockerfile''"
    "Clean ''/tmp/k'' = ''/tmp/k''"
    "Clean ''/tmp/k/..data/Dockerfile'' = ''/tmp/k/..data/Dockerfile''"
    "Clean ''/tmp/e'' = ''/tmp/e''"
    "Clean ''/tmp/s/app/Custom'' = ''/tmp/s/app/Custom''"
    "Clean ''/tmp/s/Custom'' = ''/tmp/s/Custom''"
    "Clean ''/tmp/p'' = ''/tmp/p''"
    "Clean ''/tmp/p/Containerfile'' = ''/tmp/p/Containerfile''"
    "Clean ''/tmp/p/sub/Dockerfile'' = ''/tmp/p/sub/Dockerfile''"
    by code_simp+
  show ?thesis
    unfolding resolvesCanonically_def treeFS_def
    by (auto simp: c IsAbs_def split: if_splits)
qed

lemma SearchDockerfile_Inr_contained:
  assumes canon: "resolvesCanonically fs" and srcd: "SourceDir opts \<noteq> []"
    and abs: "Abs fs (SourceDir opts) = Inr a" and ev: "EvalSymlinks fs a = Inr b"
    and res: "SearchDockerfile fs opts = Inr p" and ne: "p \<noteq> []"
  shows "isContained p b"
proof -
  let ?cands = "candidates b (if ContextDir opts = [] then ''.'' else ContextDir opts) (Dockerfile opts)"
  have ab: "IsAbs a" using canon abs by (rule IsAbs_Abs)
  with canon ev have bb: "IsAbs b" and cb: "Clean b = b"
    by (auto simp: resolvesCanonically_def)
  from res have "firstHit fs b ?cands = Inr p"
    by (simp add: SearchDockerfile_firstHit [OF canon srcd abs ev])
  from firstHit_Inr [OF this] ne obtain c where
    c: "c \<in> set ?cands" and e: "EvalSymlinks fs (snd c) = Inr p" and r: "isRelativeTo p b"
    by blast
  from bb c have "IsAbs (snd c)" by (rule candidates_abs)
  with canon e have "Clean p = p" and "IsAbs p"
    by (auto simp: resolvesCanonically_def)
  then show ?thesis using cb bb r by (intro isRelativeTo_sound)
qed

lemma SearchDockerfile_at:
  assumes canon: "resolvesCanonically fs" and srcd: "SourceDir opts \<noteq> []"
    and abs: "Abs fs (SourceDir opts) = Inr a" and ev: "EvalSymlinks fs a = Inr b"
    and cands: "cands = candidates b (if ContextDir opts = [] then ''.'' else ContextDir opts) (Dockerfile opts)"
    and i: "i < length cands" and before: "\<forall>j<i. EvalSymlinks fs (snd (cands ! j)) = Inl NotExist"
  shows "SearchDockerfile fs opts =
     (case EvalSymlinks fs (snd (cands ! i)) of
        Inl NotExist \<Rightarrow> firstHit fs b (drop (Suc i) cands)
      | Inl OtherIOError \<Rightarrow> Inl (DockerfileSymlinkFailed (snd (cands ! i)) OtherIOError)
      | Inr resolved \<Rightarrow>
          if isRelativeTo resolved b then Inr resolved
          else Inl (EscapeDetected (fst (cands ! i)) b))"
  unfolding SearchDockerfile_firstHit [OF canon srcd abs ev] cands [symmetric]
  using i before by (rule firstHit_at)

text \<open>
  Claim C1, as the code has it.  When the source directory resolves to the boundary, a path
  that \<^verbatim>\<open>SearchDockerfile\<close> returns is the boundary or lies below it.  When the first
  candidate that exists, in search order, resolves to a path that is not contained in the
  boundary, \<^verbatim>\<open>SearchDockerfile\<close> returns no path and fails with the escape error, which
  carries the build-file name that was searched and the boundary.
\<close>

theorem SearchDockerfile_containment:
  assumes canon: "resolvesCanonically fs" and srcd: "SourceDir opts \<noteq> []"
    and abs: "Abs fs (SourceDir opts) = Inr a" and ev: "EvalSymlinks fs a = Inr b"
    and cands: "cands = candidates b (if ContextDir opts = [] then ''.'' else ContextDir opts) (Dockerfile opts)"
  shows "(\<forall>p. SearchDockerfile fs opts = Inr p \<and> p \<noteq> [] \<longrightarrow> isContained p b) \<and>
         (\<forall>i q. i < length cands \<and>
                 (\<forall>j<i. EvalSymlinks fs (snd (cands ! j)) = Inl NotExist) \<and>
                 EvalSymlinks fs (snd (cands ! i)) = Inr q \<and> \<not> isContained q b \<longrightarrow>
                 SearchDockerfile fs opts = Inl (EscapeDetected (fst (cands ! i)) b))"
proof (intro conjI allI impI)
  fix p
  assume "SearchDockerfile fs opts = Inr p \<and> p \<noteq> []"
  then show "isContained p b"
    using SearchDockerfile_Inr_contained [OF canon srcd abs ev] by blast
next
  fix i q
  assume h: "i < length cands \<and>
                 (\<forall>j<i. EvalSymlinks fs (snd (cands ! j)) = Inl NotExist) \<and>
                 EvalSymlinks fs (snd (cands ! i)) = Inr q \<and> \<not> isContained q b"
  have ab: "IsAbs a" using canon abs by (rule IsAbs_Abs)
  with canon ev have bb: "IsAbs b" and cb: "Clean b = b"
    by (auto simp: resolvesCanonically_def)
  from h have "cands ! i \<in> set cands" by simp
  with bb have "IsAbs (snd (cands ! i))" unfolding cands by (rule candidates_abs)
  with canon h have "Clean q = q" and "IsAbs q"
    by (auto simp: resolvesCanonically_def)
  with cb bb h have nr: "\<not> isRelativeTo q b"
    using isRelativeTo_sound [of q b] by blast
  from h have i: "i < length cands" and before: "\<forall>j<i. EvalSymlinks fs (snd (cands ! j)) = Inl NotExist"
    and e: "EvalSymlinks fs (snd (cands ! i)) = Inr q"
    by blast+
  show "SearchDockerfile fs opts = Inl (EscapeDetected (fst (cands ! i)) b)"
    unfolding SearchDockerfile_at [OF canon srcd abs ev cands i before] using e nr by simp
qed

theorem SearchDockerfile_containment_witness:
  "SearchDockerfile treeFS \<lparr>SourceDir = ''/tmp/s'', ContextDir = ''ctx'', Dockerfile = []\<rparr>
     = Inl (EscapeDetected ''./Dockerfile'' ''/tmp/s'') \<and>
   \<not> isContained ''/tmp/outside/Dockerfile'' ''/tmp/s'' \<and>
   SearchDockerfile treeFS \<lparr>SourceDir = ''link'', ContextDir = ''app'', Dockerfile = []\<rparr>
     = Inr ''/tmp/s/app/Containerfile'' \<and>
   isContained ''/tmp/s/app/Containerfile'' ''/tmp/s''"
proof -
  let ?o = "\<lparr>SourceDir = ''/tmp/s'', ContextDir = ''ctx'', Dockerfile = []\<rparr>"
  let ?o2 = "\<lparr>SourceDir = ''link'', ContextDir = ''app'', Dockerfile = []\<rparr>"
  let ?cands = "[(''./Containerfile'', ''/tmp/s/ctx/Containerfile''),
                 (''./Containerfile'', ''/tmp/s/Containerfile''),
                 (''./Dockerfile'', ''/tmp/s/ctx/Dockerfile''),
                 (''./Dockerfile'', ''/tmp/s/Dockerfile'')]"
  have s1: "SourceDir ?o \<noteq> []" by simp
  have a1: "Abs treeFS (SourceDir ?o) = Inr ''/tmp/s''" by code_simp
  have e1: "EvalSymlinks treeFS ''/tmp/s'' = Inr ''/tmp/s''" by code_simp
  have c1: "?cands = candidates ''/tmp/s'' (if ContextDir ?o = [] then ''.'' else ContextDir ?o) (Dockerfile ?o)"
    by code_simp
  have i: "(2::nat) < length ?cands" by simp
  have before: "\<forall>j<2. EvalSymlinks treeFS (snd (?cands ! j)) = Inl NotExist"
  proof (intro allI impI)
    fix j :: nat
    assume "j < 2"
    then have "j = 0 \<or> j = 1" by auto
    moreover have "EvalSymlinks treeFS (snd (?cands ! 0)) = Inl NotExist" by code_simp
    moreover have "EvalSymlinks treeFS (snd (?cands ! 1)) = Inl NotExist" by code_simp
    ultimately show "EvalSymlinks treeFS (snd (?cands ! j)) = Inl NotExist" by auto
  qed
  have hit: "EvalSymlinks treeFS (snd (?cands ! 2)) = Inr ''/tmp/outside/Dockerfile''" by code_simp
  have out: "\<not> isContained ''/tmp/outside/Dockerfile'' ''/tmp/s''" by code_simp
  have n: "fst (?cands ! 2) = ''./Dockerfile''" by simp
  from SearchDockerfile_containment [OF treeFS_canonical s1 a1 e1 c1] i before hit out
  have "SearchDockerfile treeFS ?o = Inl (EscapeDetected (fst (?cands ! 2)) ''/tmp/s'')"
    by blast
  then have r1: "SearchDockerfile treeFS ?o = Inl (EscapeDetected ''./Dockerfile'' ''/tmp/s'')"
    by (simp only: n)
  have s2: "SourceDir ?o2 \<noteq> []" by simp
  have a2: "Abs treeFS (SourceDir ?o2) = Inr ''/tmp/link''" by code_simp
  have e2: "EvalSymlinks treeFS ''/tmp/link'' = Inr ''/tmp/s''" by code_simp
  have r2: "SearchDockerfile treeFS ?o2 = Inr ''/tmp/s/app/Containerfile''" by code_simp
  have ne: "''/tmp/s/app/Containerfile'' \<noteq> []" by simp
  from SearchDockerfile_containment [OF treeFS_canonical s2 a2 e2 refl] r2 ne
  have "isContained ''/tmp/s/app/Containerfile'' ''/tmp/s''"
    by blast
  with r1 out r2 show ?thesis by blast
qed

text \<open>
  Claim C1, as stated, fails in what the error carries: in the escape example of the
  specification the error names the searched \<^verbatim>\<open>./Dockerfile\<close>, not the canonical path
  \<^verbatim>\<open>/tmp/outside/Dockerfile\<close>.
\<close>

theorem SearchDockerfile_escape_payload_counterexample:
  "SearchDockerfile treeFS \<lparr>SourceDir = ''/tmp/s'', ContextDir = ''ctx'', Dockerfile = []\<rparr>
     = Inl (EscapeDetected ''./Dockerfile'' ''/tmp/s'') \<and>
   EvalSymlinks treeFS ''/tmp/s/ctx/Dockerfile'' = Inr ''/tmp/outside/Dockerfile'' \<and>
   SearchDockerfile treeFS \<lparr>SourceDir = ''/tmp/s'', ContextDir = ''ctx'', Dockerfile = []\<rparr>
     \<noteq> Inl (EscapeDetected ''/tmp/outside/Dockerfile'' ''/tmp/s'')"
  by code_simp

text \<open>
  Claim C4.  \<^verbatim>\<open>SearchDockerfile\<close> decides by the first candidate that exists, in this
  order: with an explicit file, the file below the context directory, then below the
  source directory; with none, \<^verbatim>\<open>./Containerfile\<close> at these two locations, then
  \<^verbatim>\<open>./Dockerfile\<close> at these two locations.  So an explicit file that exists below the
  context directory is returned whatever is at the source directory, and a
  \<^verbatim>\<open>Containerfile\<close> at either location is returned whatever \<^verbatim>\<open>Dockerfile\<close> exists.
\<close>

theorem SearchDockerfile_search_order:
  assumes canon: "resolvesCanonically fs" and srcd: "SourceDir opts \<noteq> []"
    and abs: "Abs fs (SourceDir opts) = Inr a" and ev: "EvalSymlinks fs a = Inr b"
    and ctx: "ctx = (if ContextDir opts = [] then ''.'' else ContextDir opts)"
  shows "SearchDockerfile fs opts = firstHit fs b (candidates b ctx (Dockerfile opts)) \<and>
         (Dockerfile opts \<noteq> [] \<longrightarrow>
            candidates b ctx (Dockerfile opts) =
              [(Dockerfile opts, Join [b, ctx, Dockerfile opts]), (Dockerfile opts, Join [b, Dockerfile opts])]) \<and>
         (Dockerfile opts = [] \<longrightarrow>
            candidates b ctx (Dockerfile opts) =
              [(''./Containerfile'', Join [b, ctx, ''./Containerfile'']),
               (''./Containerfile'', Join [b, ''./Containerfile'']),
               (''./Dockerfile'', Join [b, ctx, ''./Dockerfile'']),
               (''./Dockerfile'', Join [b, ''./Dockerfile''])]) \<and>
         (\<forall>q. Dockerfile opts \<noteq> [] \<and>
              EvalSymlinks fs (Join [b, ctx, Dockerfile opts]) = Inr q \<and> isRelativeTo q b \<longrightarrow>
              SearchDockerfile fs opts = Inr q) \<and>
         (\<forall>q. Dockerfile opts = [] \<and>
              EvalSymlinks fs (Join [b, ctx, ''./Containerfile'']) = Inr q \<and> isRelativeTo q b \<longrightarrow>
              SearchDockerfile fs opts = Inr q) \<and>
         (\<forall>q. Dockerfile opts = [] \<and>
              EvalSymlinks fs (Join [b, ctx, ''./Containerfile'']) = Inl NotExist \<and>
              EvalSymlinks fs (Join [b, ''./Containerfile'']) = Inr q \<and> isRelativeTo q b \<longrightarrow>
              SearchDockerfile fs opts = Inr q)"
proof -
  have f: "SearchDockerfile fs opts = firstHit fs b (candidates b ctx (Dockerfile opts))"
    unfolding ctx by (rule SearchDockerfile_firstHit [OF canon srcd abs ev])
  have e: "Dockerfile opts \<noteq> [] \<longrightarrow>
            candidates b ctx (Dockerfile opts) =
              [(Dockerfile opts, Join [b, ctx, Dockerfile opts]), (Dockerfile opts, Join [b, Dockerfile opts])]"
    by (simp add: candidates_def)
  have n: "Dockerfile opts = [] \<longrightarrow>
            candidates b ctx (Dockerfile opts) =
              [(''./Containerfile'', Join [b, ctx, ''./Containerfile'']),
               (''./Containerfile'', Join [b, ''./Containerfile'']),
               (''./Dockerfile'', Join [b, ctx, ''./Dockerfile'']),
               (''./Dockerfile'', Join [b, ''./Dockerfile''])]"
    by (simp add: candidates_def)
  have 1: "\<forall>q. Dockerfile opts \<noteq> [] \<and>
              EvalSymlinks fs (Join [b, ctx, Dockerfile opts]) = Inr q \<and> isRelativeTo q b \<longrightarrow>
              SearchDockerfile fs opts = Inr q"
    using e by (auto simp: f)
  have 2: "\<forall>q. Dockerfile opts = [] \<and>
              EvalSymlinks fs (Join [b, ctx, ''./Containerfile'']) = Inr q \<and> isRelativeTo q b \<longrightarrow>
              SearchDockerfile fs opts = Inr q"
    using n by (auto simp: f)
  have 3: "\<forall>q. Dockerfile opts = [] \<and>
              EvalSymlinks fs (Join [b, ctx, ''./Containerfile'']) = Inl NotExist \<and>
              EvalSymlinks fs (Join [b, ''./Containerfile'']) = Inr q \<and> isRelativeTo q b \<longrightarrow>
              SearchDockerfile fs opts = Inr q"
    using n by (auto simp: f)
  from f e n 1 2 3 show ?thesis by blast
qed

theorem SearchDockerfile_search_order_witness:
  "SearchDockerfile treeFS \<lparr>SourceDir = ''/tmp/s'', ContextDir = ''app'', Dockerfile = []\<rparr>
     = Inr ''/tmp/s/app/Containerfile'' \<and>
   SearchDockerfile treeFS \<lparr>SourceDir = ''/tmp/s'', ContextDir = ''app'', Dockerfile = ''Custom''\<rparr>
     = Inr ''/tmp/s/app/Custom'' \<and>
   SearchDockerfile treeFS \<lparr>SourceDir = ''/tmp/p'', ContextDir = ''sub'', Dockerfile = []\<rparr>
     = Inr ''/tmp/p/Containerfile''"
proof -
  let ?o = "\<lparr>SourceDir = ''/tmp/s'', ContextDir = ''app'', Dockerfile = []\<rparr>"
  let ?o2 = "\<lparr>SourceDir = ''/tmp/s'', ContextDir = ''app'', Dockerfile = ''Custom''\<rparr>"
  let ?o3 = "\<lparr>SourceDir = ''/tmp/p'', ContextDir = ''sub'', Dockerfile = []\<rparr>"
  have e: "EvalSymlinks treeFS ''/tmp/s'' = Inr ''/tmp/s''" by code_simp
  have e3: "EvalSymlinks treeFS ''/tmp/p'' = Inr ''/tmp/p''" by code_simp
  have s1: "SourceDir ?o \<noteq> []" by simp
  have a1: "Abs treeFS (SourceDir ?o) = Inr ''/tmp/s''" by code_simp
  have x1: "''app'' = (if ContextDir ?o = [] then ''.'' else ContextDir ?o)" by simp
  have d1: "Dockerfile ?o = []" by simp
  have h1: "EvalSymlinks treeFS (Join [''/tmp/s'', ''app'', ''./Containerfile'']) = Inr ''/tmp/s/app/Containerfile''"
    by code_simp
  have both: "EvalSymlinks treeFS (Join [''/tmp/s'', ''app'', ''./Dockerfile'']) = Inr ''/tmp/s/app/Dockerfile'' \<and>
              EvalSymlinks treeFS (Join [''/tmp/s'', ''./Dockerfile'']) = Inr ''/tmp/s/Dockerfile''"
    by code_simp
  have r1: "isRelativeTo ''/tmp/s/app/Containerfile'' ''/tmp/s''" by code_simp
  from SearchDockerfile_search_order [OF treeFS_canonical s1 a1 e x1] d1 h1 r1
  have 1: "SearchDockerfile treeFS ?o = Inr ''/tmp/s/app/Containerfile''"
    by blast
  have s2: "SourceDir ?o2 \<noteq> []" by simp
  have a2: "Abs treeFS (SourceDir ?o2) = Inr ''/tmp/s''" by code_simp
  have x2: "''app'' = (if ContextDir ?o2 = [] then ''.'' else ContextDir ?o2)" by simp
  have d2: "Dockerfile ?o2 \<noteq> []" by simp
  have h2: "EvalSymlinks treeFS (Join [''/tmp/s'', ''app'', Dockerfile ?o2]) = Inr ''/tmp/s/app/Custom''"
    by code_simp
  have r2: "isRelativeTo ''/tmp/s/app/Custom'' ''/tmp/s''" by code_simp
  from SearchDockerfile_search_order [OF treeFS_canonical s2 a2 e x2] d2 h2 r2
  have 2: "SearchDockerfile treeFS ?o2 = Inr ''/tmp/s/app/Custom''"
    by blast
  have s3: "SourceDir ?o3 \<noteq> []" by simp
  have a3: "Abs treeFS (SourceDir ?o3) = Inr ''/tmp/p''" by code_simp
  have x3: "''sub'' = (if ContextDir ?o3 = [] then ''.'' else ContextDir ?o3)" by simp
  have d3: "Dockerfile ?o3 = []" by simp
  have h3: "EvalSymlinks treeFS (Join [''/tmp/p'', ''sub'', ''./Containerfile'']) = Inl NotExist"
    by code_simp
  have h3': "EvalSymlinks treeFS (Join [''/tmp/p'', ''./Containerfile'']) = Inr ''/tmp/p/Containerfile''"
    by code_simp
  have r3: "isRelativeTo ''/tmp/p/Containerfile'' ''/tmp/p''" by code_simp
  from SearchDockerfile_search_order [OF treeFS_canonical s3 a3 e3 x3] d3 h3 h3' r3
  have 3: "SearchDockerfile treeFS ?o3 = Inr ''/tmp/p/Containerfile''"
    by blast
  from 1 2 3 show ?thesis by blast
qed

text \<open>
  Claim C5 fails on the code at a descendant whose first element below the boundary
  starts with two dots, as \<^verbatim>\<open>..data\<close> of a Kubernetes volume does: the relative path
  \<^verbatim>\<open>..data/Dockerfile\<close> has the prefix \<^verbatim>\<open>..\<close>, so \<^verbatim>\<open>isRelativeTo\<close> is false and
  \<^verbatim>\<open>SearchDockerfile\<close> reports an escape for a file inside the source directory.
\<close>

theorem isRelativeTo_dotdot_prefixed_name:
  "Rel ''/tmp/k'' ''/tmp/k/..data/Dockerfile'' = Inr ''..data/Dockerfile'' \<and>
   isRelativeTo ''/tmp/k/..data/Dockerfile'' ''/tmp/k'' = False \<and>
   isContained ''/tmp/k/..data/Dockerfile'' ''/tmp/k'' \<and>
   SearchDockerfile treeFS \<lparr>SourceDir = ''/tmp/k'', ContextDir = [], Dockerfile = []\<rparr>
     = Inl (EscapeDetected ''./Dockerfile'' ''/tmp/k'')"
  by code_simp

text \<open>
  Claim C7.  When the source directory resolves and no candidate location exists,
  \<^verbatim>\<open>SearchDockerfile\<close> returns the empty path and no error.  When the first candidate
  that does not fail with ``does not exist'' fails with another resolution error, that
  error is returned for the candidate's path.
\<close>

theorem SearchDockerfile_not_found:
  assumes canon: "resolvesCanonically fs" and srcd: "SourceDir opts \<noteq> []"
    and abs: "Abs fs (SourceDir opts) = Inr a" and ev: "EvalSymlinks fs a = Inr b"
    and cands: "cands = candidates b (if ContextDir opts = [] then ''.'' else ContextDir opts) (Dockerfile opts)"
  shows "((\<forall>c \<in> set cands. EvalSymlinks fs (snd c) = Inl NotExist) \<longrightarrow>
            SearchDockerfile fs opts = Inr []) \<and>
         (\<forall>i. i < length cands \<and>
               (\<forall>j<i. EvalSymlinks fs (snd (cands ! j)) = Inl NotExist) \<and>
               EvalSymlinks fs (snd (cands ! i)) = Inl OtherIOError \<longrightarrow>
               SearchDockerfile fs opts = Inl (DockerfileSymlinkFailed (snd (cands ! i)) OtherIOError))"
proof (intro conjI allI impI)
  assume all: "\<forall>c \<in> set cands. EvalSymlinks fs (snd c) = Inl NotExist"
  then have "\<forall>j<length cands. EvalSymlinks fs (snd (cands ! j)) = Inl NotExist"
    by simp
  then have "firstHit fs b cands = firstHit fs b (drop (length cands) cands)"
    by (intro firstHit_skip) simp_all
  then show "SearchDockerfile fs opts = Inr []"
    by (simp add: SearchDockerfile_firstHit [OF canon srcd abs ev] cands [symmetric])
next
  fix i
  assume h: "i < length cands \<and>
               (\<forall>j<i. EvalSymlinks fs (snd (cands ! j)) = Inl NotExist) \<and>
               EvalSymlinks fs (snd (cands ! i)) = Inl OtherIOError"
  then have i: "i < length cands" and before: "\<forall>j<i. EvalSymlinks fs (snd (cands ! j)) = Inl NotExist"
    and e: "EvalSymlinks fs (snd (cands ! i)) = Inl OtherIOError"
    by blast+
  show "SearchDockerfile fs opts = Inl (DockerfileSymlinkFailed (snd (cands ! i)) OtherIOError)"
    unfolding SearchDockerfile_at [OF canon srcd abs ev cands i before] using e by simp
qed

theorem SearchDockerfile_not_found_witness:
  "SearchDockerfile treeFS \<lparr>SourceDir = ''/tmp/e'', ContextDir = [], Dockerfile = []\<rparr> = Inr [] \<and>
   SearchDockerfile treeFS \<lparr>SourceDir = ''/tmp/s'', ContextDir = ''locked'', Dockerfile = []\<rparr>
     = Inl (DockerfileSymlinkFailed ''/tmp/s/locked/Containerfile'' OtherIOError)"
proof -
  let ?o = "\<lparr>SourceDir = ''/tmp/e'', ContextDir = [], Dockerfile = []\<rparr>"
  let ?o2 = "\<lparr>SourceDir = ''/tmp/s'', ContextDir = ''locked'', Dockerfile = []\<rparr>"
  let ?cands = "[(''./Containerfile'', ''/tmp/e/Containerfile''),
                 (''./Containerfile'', ''/tmp/e/Containerfile''),
                 (''./Dockerfile'', ''/tmp/e/Dockerfile''),
                 (''./Dockerfile'', ''/tmp/e/Dockerfile'')]"
  let ?cands2 = "[(''./Containerfile'', ''/tmp/s/locked/Containerfile''),
                 (''./Containerfile'', ''/tmp/s/Containerfile''),
                 (''./Dockerfile'', ''/tmp/s/locked/Dockerfile''),
                 (''./Dockerfile'', ''/tmp/s/Dockerfile'')]"
  have s1: "SourceDir ?o \<noteq> []" by simp
  have a1: "Abs treeFS (SourceDir ?o) = Inr ''/tmp/e''" by code_simp
  have e1: "EvalSymlinks treeFS ''/tmp/e'' = Inr ''/tmp/e''" by code_simp
  have c1: "?cands = candidates ''/tmp/e'' (if ContextDir ?o = [] then ''.'' else ContextDir ?o) (Dockerfile ?o)"
    by code_simp
  have all: "\<forall>c \<in> set ?cands. EvalSymlinks treeFS (snd c) = Inl NotExist"
    by code_simp
  from SearchDockerfile_not_found [OF treeFS_canonical s1 a1 e1 c1] all
  have r1: "SearchDockerfile treeFS ?o = Inr []"
    by blast
  have s2: "SourceDir ?o2 \<noteq> []" by simp
  have a2: "Abs treeFS (SourceDir ?o2) = Inr ''/tmp/s''" by code_simp
  have e2: "EvalSymlinks treeFS ''/tmp/s'' = Inr ''/tmp/s''" by code_simp
  have c2: "?cands2 = candidates ''/tmp/s'' (if ContextDir ?o2 = [] then ''.'' else ContextDir ?o2) (Dockerfile ?o2)"
    by code_simp
  have i: "(0::nat) < length ?cands2" by simp
  have before: "\<forall>j<(0::nat). EvalSymlinks treeFS (snd (?cands2 ! j)) = Inl NotExist" by simp
  have hit: "EvalSymlinks treeFS (snd (?cands2 ! 0)) = Inl OtherIOError" by code_simp
  from SearchDockerfile_not_found [OF treeFS_canonical s2 a2 e2 c2] i before hit
  have "SearchDockerfile treeFS ?o2 = Inl (DockerfileSymlinkFailed (snd (?cands2 ! 0)) OtherIOError)"
    by blast
  then have r2: "SearchDockerfile treeFS ?o2 = Inl (DockerfileSymlinkFailed ''/tmp/s/locked/Containerfile'' OtherIOError)"
    by simp
  from r1 r2 show ?thesis by blast
qed

section \<open>Properties of the structured input transformer\<close>

lemma containsRPM_visited: "containsRPM x \<longleftrightarrow> list_ex isRPMObject (visited x)"
proof (induction x rule: containsRPM.induct)
  case (1 data)
  then show ?case by (auto simp: list_ex_iff isRPMObject_def)
next
  case (2 data)
  show ?case
  proof (cases "\<exists>packages. map_of data ''packages'' = Some (JArr packages)")
    case True
    then obtain packages where p: "map_of data ''packages'' = Some (JArr packages)" by blast
    with 2 have "\<And>y. y \<in> set packages \<Longrightarrow> containsRPM y = list_ex isRPMObject (visited y)"
      by blast
    then show ?thesis using p by (auto simp: list_ex_iff isRPMObject_def)
  next
    case False
    then show ?thesis by (auto simp: isRPMObject_def split: option.splits json.splits)
  qed
qed (simp_all add: isRPMObject_def)

lemma leafMatch_iff_visited:
  "leafMatch x \<longleftrightarrow> list_ex (\<lambda>n. isRPMObject n \<and> \<not> hasPackagesArray n) (visited x)"
proof (induction x rule: leafMatch.induct)
  case (1 data)
  then show ?case by (auto simp: list_ex_iff isRPMObject_def hasPackagesArray_def)
next
  case (2 data)
  show ?case
  proof (cases "\<exists>packages. map_of data ''packages'' = Some (JArr packages)")
    case True
    then obtain packages where p: "map_of data ''packages'' = Some (JArr packages)" by blast
    with 2 have "\<And>y. y \<in> set packages \<Longrightarrow>
        leafMatch y = list_ex (\<lambda>n. isRPMObject n \<and> \<not> hasPackagesArray n) (visited y)"
      by blast
    then show ?thesis using p by (auto simp: list_ex_iff isRPMObject_def hasPackagesArray_def)
  next
    case False
    then show ?thesis by (auto simp: isRPMObject_def hasPackagesArray_def split: option.splits json.splits)
  qed
qed (simp_all add: isRPMObject_def hasPackagesArray_def)

lemma leafMatch_imp_containsRPM: "leafMatch x \<Longrightarrow> containsRPM x"
  by (auto simp: leafMatch_iff_visited containsRPM_visited list_ex_iff)

lemma inject_summary_no_leaf: "\<not> leafMatch x \<Longrightarrow> injectSummaryInSBOMField x = x"
proof (induction x rule: leafMatch.induct)
  case (1 data)
  then show ?case by (auto simp: list_ex_iff map_idI)
next
  case (2 data)
  show ?case
  proof (cases "\<exists>packages. map_of data ''packages'' = Some (JArr packages)")
    case True
    then obtain packages where p: "map_of data ''packages'' = Some (JArr packages)" by blast
    with 2 have "map injectSummaryInSBOMField packages = packages"
      by (auto simp: list_ex_iff intro!: map_idI)
    then show ?thesis using p by (simp add: update_triv)
  next
    case False
    then show ?thesis using 2(2) by (auto split: option.splits json.splits)
  qed
qed simp_all

text \<open>
  Claim C9, as the code has it.  \<^verbatim>\<open>containsRPM\<close> returns true exactly when the traversal
  through array elements and through the elements of \<^verbatim>\<open>"packages"\<close> arrays reaches an
  object whose \<^verbatim>\<open>"type"\<close> is \<^verbatim>\<open>"rpm"\<close>, whether or not that object carries a
  \<^verbatim>\<open>"packages"\<close> array itself.  In particular it is true whenever the injection
  traversal has a leaf match.
\<close>

theorem containsRPM_iff_rpm_object_visited:
  "(containsRPM x \<longleftrightarrow> list_ex isRPMObject (visited x)) \<and> (leafMatch x \<longrightarrow> containsRPM x)"
  using containsRPM_visited [of x] leafMatch_imp_containsRPM [of x] by blast

theorem containsRPM_iff_rpm_object_visited_witness:
  "leafMatch (JObj [(''packages'', JArr [JObj [(''type'', JStr ''rpm'')], JObj [(''type'', JStr ''yarn'')]])]) \<and>
   containsRPM (JObj [(''packages'', JArr [JObj [(''type'', JStr ''rpm'')], JObj [(''type'', JStr ''yarn'')]])]) \<and>
   list_ex isRPMObject
     (visited (JObj [(''packages'', JArr [JObj [(''type'', JStr ''rpm'')], JObj [(''type'', JStr ''yarn'')]])]))"
proof -
  let ?x = "JObj [(''packages'', JArr [JObj [(''type'', JStr ''rpm'')], JObj [(''type'', JStr ''yarn'')]])]"
  have l: "leafMatch ?x" by simp
  from containsRPM_iff_rpm_object_visited [of ?x] l show ?thesis by blast
qed

text \<open>
  Claim C9, as stated, fails: an object with \<^verbatim>\<open>"type": "rpm"\<close> and an empty
  \<^verbatim>\<open>"packages"\<close> array makes \<^verbatim>\<open>containsRPM\<close> true, but it is no leaf match of the
  injection traversal, and the injection leaves it as it is.
\<close>

theorem containsRPM_leafMatch_counterexample:
  "containsRPM (JObj [(''packages'', JArr []), (''type'', JStr ''rpm'')]) \<and>
   \<not> leafMatch (JObj [(''packages'', JArr []), (''type'', JStr ''rpm'')]) \<and>
   injectSummaryInSBOMField (JObj [(''packages'', JArr []), (''type'', JStr ''rpm'')])
     = JObj [(''packages'', JArr []), (''type'', JStr ''rpm'')]"
  by simp

lemma injectSSLOptions_examples:
  "injectSSLOptions
     (JObj [(''type'', JStr ''rpm''),
            (''options'', JObj [(''gpg'', JBool True),
                                (''ssl'', JObj [(''client_key'', JStr ''old''), (''verify'', JBool True)])])])
     [(''client_key'', JStr ''new''), (''ca_bundle'', JStr ''cb'')]
   = JObj [(''type'', JStr ''rpm''),
           (''options'', JObj [(''gpg'', JBool True),
                               (''ssl'', JObj [(''client_key'', JStr ''new''), (''verify'', JBool True),
                                               (''ca_bundle'', JStr ''cb'')])])]"
  "injectSSLOptions
     (JObj [(''type'', JStr ''rpm''), (''options'', JObj [(''gpg'', JBool True)])])
     [(''client_key'', JStr ''new'')]
   = JObj [(''type'', JStr ''rpm''), (''options'', JObj [(''ssl'', JObj [(''client_key'', JStr ''new'')])])]"
  by (simp_all add: injectSSLLeaf_def mapsCopy_def)

text \<open>
  Claim C10.  Let a node be an object whose \<^verbatim>\<open>"type"\<close> is \<^verbatim>\<open>"rpm"\<close> and that carries no
  \<^verbatim>\<open>"packages"\<close> array.  \<^verbatim>\<open>injectSSLOptions\<close> returns an object that agrees with the
  node on every key but \<^verbatim>\<open>"options"\<close>.  If the node has an \<^verbatim>\<open>"options"\<close> object that
  holds an \<^verbatim>\<open>"ssl"\<close> object, the new options agree with the old ones on every key but
  \<^verbatim>\<open>"ssl"\<close>, and the new ssl object is the old one overridden by the injected entries.
  In every other case the whole \<^verbatim>\<open>"options"\<close> value becomes the one-entry object
  \<^verbatim>\<open>{"ssl": ssl}\<close>, so every other key that was under \<^verbatim>\<open>"options"\<close> is gone.
\<close>

theorem injectSSLOptions_options_frame:
  assumes ty: "map_of data ''type'' = Some (JStr ''rpm'')"
    and nopk: "\<forall>packages. map_of data ''packages'' \<noteq> Some (JArr packages)"
  shows "\<exists>data'. injectSSLOptions (JObj data) ssl = JObj data' \<and>
           (\<forall>k. k \<noteq> ''options'' \<longrightarrow> map_of data' k = map_of data k) \<and>
           (case optionsWithSSL data of
              Some (opts, old) \<Rightarrow>
                (\<exists>opts' ssl'. map_of data' ''options'' = Some (JObj opts') \<and>
                   (\<forall>k. k \<noteq> ''ssl'' \<longrightarrow> map_of opts' k = map_of opts k) \<and>
                   map_of opts' ''ssl'' = Some (JObj ssl') \<and>
                   map_of ssl' = map_of old ++ map_of ssl)
            | None \<Rightarrow> map_of data' ''options'' = Some (JObj [(''ssl'', JObj ssl)]))"
proof -
  have leaf: "injectSSLOptions (JObj data) ssl = injectSSLLeaf data ssl"
    using ty nopk by (simp split: option.splits json.splits)
  show ?thesis
  proof (cases "optionsWithSSL data")
    case None
    let ?data' = "AList.update ''options'' (JObj [(''ssl'', JObj ssl)]) data"
    from None have "injectSSLLeaf data ssl = JObj ?data'"
      by (simp add: injectSSLLeaf_def optionsWithSSL_def split: option.splits json.splits)
    then show ?thesis
      using leaf None by (simp add: update_conv')
  next
    case (Some pair)
    then obtain opts old where e: "optionsWithSSL data = Some (opts, old)"
      by (cases pair) simp
    then have opt: "map_of data ''options'' = Some (JObj opts)"
      and old: "map_of opts ''ssl'' = Some (JObj old)"
      by (auto simp: optionsWithSSL_def split: option.splits json.splits)
    let ?ssl' = "mapsCopy old ssl"
    let ?opts' = "AList.update ''ssl'' (JObj ?ssl') opts"
    let ?data' = "AList.update ''options'' (JObj ?opts') data"
    have "injectSSLLeaf data ssl = JObj ?data'"
      by (simp add: injectSSLLeaf_def opt old)
    moreover have "map_of ?ssl' = map_of old ++ map_of ssl"
      by (simp add: mapsCopy_def merge_conv')
    ultimately show ?thesis
      using leaf e by (simp add: update_conv')
  qed
qed

theorem injectSSLOptions_options_frame_witness:
  "(\<exists>data'. injectSSLOptions
       (JObj [(''type'', JStr ''rpm''),
              (''options'', JObj [(''gpg'', JBool True), (''ssl'', JObj [(''client_key'', JStr ''old'')])])])
       [(''client_key'', JStr ''new''), (''ca_bundle'', JStr ''cb'')] = JObj data' \<and>
      map_of data' ''type'' = Some (JStr ''rpm'') \<and>
      (\<exists>opts' ssl'. map_of data' ''options'' = Some (JObj opts') \<and>
         map_of opts' ''gpg'' = Some (JBool True) \<and>
         map_of opts' ''ssl'' = Some (JObj ssl') \<and>
         map_of ssl' ''client_key'' = Some (JStr ''new'') \<and>
         map_of ssl' ''ca_bundle'' = Some (JStr ''cb'')))
   \<and>
   (\<exists>data'. injectSSLOptions
       (JObj [(''type'', JStr ''rpm''), (''options'', JObj [(''gpg'', JBool True)])])
       [(''client_key'', JStr ''new'')] = JObj data' \<and>
      map_of data' ''type'' = Some (JStr ''rpm'') \<and>
      map_of data' ''options'' = Some (JObj [(''ssl'', JObj [(''client_key'', JStr ''new'')])]))"
proof -
  let ?ssl = "[(''client_key'', JStr ''new''), (''ca_bundle'', JStr ''cb'')]"
  let ?old = "[(''client_key'', JStr ''old'')]"
  let ?opts = "[(''gpg'', JBool True), (''ssl'', JObj ?old)]"
  let ?data = "[(''type'', JStr ''rpm''), (''options'', JObj ?opts)]"
  let ?ssl2 = "[(''client_key'', JStr ''new'')]"
  let ?opts2 = "[(''gpg'', JBool True)]"
  let ?data2 = "[(''type'', JStr ''rpm''), (''options'', JObj ?opts2)]"
  have a1: "map_of ?data ''type'' = Some (JStr ''rpm'')" by simp
  have a2: "\<forall>packages. map_of ?data ''packages'' \<noteq> Some (JArr packages)" by simp
  have a3: "optionsWithSSL ?data = Some (?opts, ?old)" by (simp add: optionsWithSSL_def)
  have b1: "map_of ?data2 ''type'' = Some (JStr ''rpm'')" by simp
  have b2: "\<forall>packages. map_of ?data2 ''packages'' \<noteq> Some (JArr packages)" by simp
  have b3: "optionsWithSSL ?data2 = None" by (simp add: optionsWithSSL_def)
  from injectSSLOptions_options_frame [OF a1 a2, of ?ssl]
  obtain data' where r: "injectSSLOptions (JObj ?data) ?ssl = JObj data'"
    and d: "\<forall>k. k \<noteq> ''options'' \<longrightarrow> map_of data' k = map_of ?data k"
    and c: "case optionsWithSSL ?data of
              Some (opts, old) \<Rightarrow>
                (\<exists>opts' ssl'. map_of data' ''options'' = Some (JObj opts') \<and>
                   (\<forall>k. k \<noteq> ''ssl'' \<longrightarrow> map_of opts' k = map_of opts k) \<and>
                   map_of opts' ''ssl'' = Some (JObj ssl') \<and>
                   map_of ssl' = map_of old ++ map_of ?ssl)
            | None \<Rightarrow> map_of data' ''options'' = Some (JObj [(''ssl'', JObj ?ssl)])"
    by blast
  from c obtain opts' ssl' where
    o: "map_of data' ''options'' = Some (JObj opts')"
    and p: "\<forall>k. k \<noteq> ''ssl'' \<longrightarrow> map_of opts' k = map_of ?opts k"
    and q: "map_of opts' ''ssl'' = Some (JObj ssl')"
    and m: "map_of ssl' = map_of ?old ++ map_of ?ssl"
    unfolding a3 by auto
  from d have t: "map_of data' ''type'' = Some (JStr ''rpm'')" by simp
  from p have g: "map_of opts' ''gpg'' = Some (JBool True)" by simp
  from m have k: "map_of ssl' ''client_key'' = Some (JStr ''new'')"
    and cb: "map_of ssl' ''ca_bundle'' = Some (JStr ''cb'')" by simp_all
  from r t o g q k cb have first: "\<exists>data'. injectSSLOptions (JObj ?data) ?ssl = JObj data' \<and>
      map_of data' ''type'' = Some (JStr ''rpm'') \<and>
      (\<exists>opts' ssl'. map_of data' ''options'' = Some (JObj opts') \<and>
         map_of opts' ''gpg'' = Some (JBool True) \<and>
         map_of opts' ''ssl'' = Some (JObj ssl') \<and>
         map_of ssl' ''client_key'' = Some (JStr ''new'') \<and>
         map_of ssl' ''ca_bundle'' = Some (JStr ''cb''))"
    by blast
  from injectSSLOptions_options_frame [OF b1 b2, of ?ssl2]
  obtain data2' where r2: "injectSSLOptions (JObj ?data2) ?ssl2 = JObj data2'"
    and d2: "\<forall>k. k \<noteq> ''options'' \<longrightarrow> map_of data2' k = map_of ?data2 k"
    and c2: "case optionsWithSSL ?data2 of
              Some (opts, old) \<Rightarrow>
                (\<exists>opts' ssl'. map_of data2' ''options'' = Some (JObj opts') \<and>
                   (\<forall>k. k \<noteq> ''ssl'' \<longrightarrow> map_of opts' k = map_of opts k) \<and>
                   map_of opts' ''ssl'' = Some (JObj ssl') \<and>
                   map_of ssl' = map_of old ++ map_of ?ssl2)
            | None \<Rightarrow> map_of data2' ''options'' = Some (JObj [(''ssl'', JObj ?ssl2)])"
    by blast
  from c2 have o2: "map_of data2' ''options'' = Some (JObj [(''ssl'', JObj ?ssl2)])"
    unfolding b3 by simp
  from d2 have t2: "map_of data2' ''type'' = Some (JStr ''rpm'')" by simp
  from r2 t2 o2 have second: "\<exists>data'. injectSSLOptions (JObj ?data2) ?ssl2 = JObj data' \<and>
      map_of data' ''type'' = Some (JStr ''rpm'') \<and>
      map_of data' ''options'' = Some (JObj [(''ssl'', JObj ?ssl2)])"
    by blast
  from first second show ?thesis by blast
qed

end
